theory Spec2Isabelle
  imports Main
begin

section \<open>The node model\<close>

text \<open>
  A node is a JavaScript array. A Leaf is \<^verbatim>\<open>[value, atime, size]\<close> (length 3), a Branch is
  \<^verbatim>\<open>[map, atime, size, count]\<close> (length 4); \<^verbatim>\<open>isLeaf\<close> and \<^verbatim>\<open>isBranch\<close> test the length.
  Timestamps are milliseconds (\<^verbatim>\<open>Date.getTime()\<close>), sizes and counts are integral
  JavaScript numbers, modelled as unbounded integers.

  The child map of a Branch is a JavaScript \<^verbatim>\<open>Map\<close>: it iterates in insertion order,
  \<^verbatim>\<open>set\<close> on a present key keeps the key's position, \<^verbatim>\<open>set\<close> on a new key appends.
  It is modelled as an association list.
\<close>

type_synonym time = int

datatype ('k, 'v) node =
    Leaf 'v time int
  | Branch "('k \<times> ('k, 'v) node) list" time int int

datatype error = TypeError

fun isLeaf :: "('k, 'v) node \<Rightarrow> bool" where
  "isLeaf (Leaf v a s) = True"
| "isLeaf (Branch cs a s n) = False"

fun isBranch :: "('k, 'v) node \<Rightarrow> bool" where
  "isBranch (Leaf v a s) = False"
| "isBranch (Branch cs a s n) = True"

text \<open>
  \<^verbatim>\<open>node[1]\<close>, \<^verbatim>\<open>node[2]\<close> and \<^verbatim>\<open>isBranch(node) ? node[3] : 1\<close>, the number
  of leaves a node stands for in its parent's count.
\<close>

fun atime_of :: "('k, 'v) node \<Rightarrow> time" where
  "atime_of (Leaf v a s) = a"
| "atime_of (Branch cs a s n) = a"

fun size_of :: "('k, 'v) node \<Rightarrow> int" where
  "size_of (Leaf v a s) = s"
| "size_of (Branch cs a s n) = s"

fun count_of :: "('k, 'v) node \<Rightarrow> int" where
  "count_of (Leaf v a s) = 1"
| "count_of (Branch cs a s n) = n"

text \<open>\<^verbatim>\<open>node[1] = new Date()\<close>.\<close>

fun touch :: "time \<Rightarrow> ('k, 'v) node \<Rightarrow> ('k, 'v) node" where
  "touch now (Leaf v a s) = Leaf v now s"
| "touch now (Branch cs a s n) = Branch cs now s n"

subsection \<open>The child map\<close>

fun map_get :: "('k \<times> 'a) list \<Rightarrow> 'k \<Rightarrow> 'a option" where
  "map_get [] k = None"
| "map_get ((k', x) # cs) k = (if k' = k then Some x else map_get cs k)"

fun map_set :: "('k \<times> 'a) list \<Rightarrow> 'k \<Rightarrow> 'a \<Rightarrow> ('k \<times> 'a) list" where
  "map_set [] k y = [(k, y)]"
| "map_set ((k', x) # cs) k y = (if k' = k then (k', y) # cs else (k', x) # map_set cs k y)"

fun map_delete :: "('k \<times> 'a) list \<Rightarrow> 'k \<Rightarrow> ('k \<times> 'a) list" where
  "map_delete [] k = []"
| "map_delete ((k', x) # cs) k = (if k' = k then map_delete cs k else (k', x) # map_delete cs k)"

section \<open>Traversal: \<^verbatim>\<open>CachePartial.getImpl\<close> and \<^verbatim>\<open>CachePartial.node\<close>\<close>

text \<open>
  Every function that mutates a node returns the node as it is afterwards. A key component
  looked up on a Leaf calls \<^verbatim>\<open>get\<close> on the stored value (the casts
  \<^verbatim>\<open>node as Branch\<close> are unchecked); for a value without such a method, as every
  primitive value, that call throws a \<^verbatim>\<open>TypeError\<close>, which is the first component
  \<open>Inl TypeError\<close>. Each public call has one clock reading \<open>now\<close>, which stands for
  every \<^verbatim>\<open>new Date()\<close> of that call.
\<close>

fun getImpl :: "time \<Rightarrow> ('k, 'v) node \<Rightarrow> 'k list \<Rightarrow> bool
    \<Rightarrow> (error + ('k, 'v) node option) \<times> ('k, 'v) node" where
  "getImpl now node [] updateAccessTime =
     (let node' = (if updateAccessTime then touch now node else node)
      in (Inr (Some node'), node'))"
| "getImpl now node (head # tail) updateAccessTime =
     (let node' = (if updateAccessTime then touch now node else node)
      in case node' of
           Leaf v a s \<Rightarrow> (Inl TypeError, node')
         | Branch cs a s n \<Rightarrow>
             (case map_get cs head of
                None \<Rightarrow> (Inr None, node')
              | Some child \<Rightarrow>
                  (let (r, child') = getImpl now child tail updateAccessTime
                   in (r, Branch (map_set cs head child') a s n))))"

fun node_at :: "('k, 'v) node \<Rightarrow> 'k list \<Rightarrow> error + ('k, 'v) node option" where
  "node_at node [] = Inr (Some node)"
| "node_at node (head # tail) =
     (case node of
        Leaf v a s \<Rightarrow> Inl TypeError
      | Branch cs a s n \<Rightarrow>
          (case map_get cs head of
             None \<Rightarrow> Inr None
           | Some child \<Rightarrow> node_at child tail))"

section \<open>Insertion: \<^verbatim>\<open>MemCache.insertImpl\<close>\<close>

text \<open>
  The parameter \<open>sizeof\<close> is the byte-size estimator of the package \<^verbatim>\<open>object-sizeof\<close>;
  it returns a number of bytes, a natural number. The result is
  \<^verbatim>\<open>[size, diff, inserted]\<close>.
\<close>

fun insertImpl :: "('v \<Rightarrow> nat) \<Rightarrow> ('k, 'v) node \<Rightarrow> 'k list \<Rightarrow> 'v \<Rightarrow> time \<Rightarrow> bool
    \<Rightarrow> (error + (int option \<times> int \<times> bool)) \<times> ('k, 'v) node" where
  "insertImpl sizeof branch [] val date replace = (Inr (None, 0, False), branch)"
| "insertImpl sizeof branch [head] val date replace =
     (case branch of
        Leaf v a s \<Rightarrow> (Inl TypeError, branch)
      | Branch cs a s n \<Rightarrow>
          (let existing = map_get cs head
           in if \<not> replace \<and> existing \<noteq> None then (Inr (None, 0, False), branch)
              else
                (let sz = int (sizeof val);
                     diff = sz - (case existing of None \<Rightarrow> 0 | Some e \<Rightarrow> size_of e);
                     inserted = (existing = None)
                 in (Inr (Some sz, diff, inserted),
                     Branch (map_set cs head (Leaf val date sz)) date (s + diff)
                       (n + (if inserted then 1 else 0))))))"
| "insertImpl sizeof branch (head # tail) val date replace =
     (case branch of
        Leaf v a s \<Rightarrow> (Inl TypeError, branch)
      | Branch cs a s n \<Rightarrow>
          (let (child, cs') =
                 (case map_get cs head of
                    None \<Rightarrow> (Branch [] date 0 0, map_set cs head (Branch [] date 0 0))
                  | Some c \<Rightarrow> (c, cs))
           in case insertImpl sizeof child tail val date replace of
                (Inl e, child') \<Rightarrow> (Inl e, Branch (map_set cs' head child') a s n)
              | (Inr (sz, diff, inserted), child') \<Rightarrow>
                  (Inr (sz, diff, inserted),
                   Branch (map_set cs' head child') date (s + diff)
                     (n + (if inserted then 1 else 0)))))"

section \<open>Deletion: \<^verbatim>\<open>MemCache.deleteImpl\<close>\<close>

fun deleteImpl :: "('k, 'v) node \<Rightarrow> 'k list
    \<Rightarrow> (error + ('k, 'v) node option) \<times> ('k, 'v) node" where
  "deleteImpl branch [] = (Inr None, branch)"
| "deleteImpl branch [head] =
     (case branch of
        Leaf v a s \<Rightarrow> (Inl TypeError, branch)
      | Branch cs a s n \<Rightarrow>
          (case map_get cs head of
             None \<Rightarrow> (Inr None, branch)
           | Some entry \<Rightarrow>
               (Inr (Some entry),
                Branch (map_delete cs head) a (s - size_of entry)
                  (n - (if isBranch entry then count_of entry else 1)))))"
| "deleteImpl branch (head # tail) =
     (case branch of
        Leaf v a s \<Rightarrow> (Inl TypeError, branch)
      | Branch cs a s n \<Rightarrow>
          (case map_get cs head of
             None \<Rightarrow> (Inr None, branch)
           | Some child \<Rightarrow>
               (case deleteImpl child tail of
                  (Inl e, child') \<Rightarrow> (Inl e, Branch (map_set cs head child') a s n)
                | (Inr None, child') \<Rightarrow> (Inr None, Branch (map_set cs head child') a s n)
                | (Inr (Some deleted), child') \<Rightarrow>
                    (Inr (Some deleted),
                     Branch (map_set cs head child') a (s - size_of deleted)
                       (n - (if isBranch deleted then count_of deleted else 1))))))"

section \<open>The cache: options, state, eviction\<close>

text \<open>
  \<open>capacity\<close> is the byte count that \<^verbatim>\<open>byteSize\<close> returns for the configured capacity,
  \<open>pruneDepth = None\<close> is the default \<^verbatim>\<open>Infinity\<close>. The state of a cache is its root
  Branch and \<^verbatim>\<open>lastPruneAt\<close>.
\<close>

record options =
  capacity :: "nat option"
  autoPrune :: bool
  autoPruneInterval :: "int option"
  pruneDepth :: "nat option"

record ('k, 'v) memcache =
  root :: "('k, 'v) node"
  lastPruneAt :: time

definition cache_size :: "('k, 'v) memcache \<Rightarrow> int" where
  "cache_size c = size_of (root c)"

definition clear :: "('k, 'v) memcache \<Rightarrow> ('k, 'v) memcache" where
  "clear c =
     (case root c of
        Branch cs a s n \<Rightarrow> c\<lparr>root := Branch [] a 0 n\<rparr>
      | Leaf v a s \<Rightarrow> c)"

text \<open>
  \<^verbatim>\<open>node[0]\<close>, which \<^verbatim>\<open>flatten\<close> records as the value of a unit: the stored value of
  a Leaf, the child map of a Branch.
\<close>

datatype ('k, 'v) slot0 = Val 'v | Children "('k \<times> ('k, 'v) node) list"

text \<open>
  A unit is \<^verbatim>\<open>[prefix, node[0], node[1], node[2]]\<close>. \<^verbatim>\<open>flatten\<close> makes a node a
  unit when \<^verbatim>\<open>prefix.length >= pruneDepth || isLeaf(node)\<close> and descends into the
  children of a Branch otherwise, in the order of its map.
\<close>

type_synonym ('k, 'v) unit = "'k list \<times> ('k, 'v) slot0 \<times> time \<times> int"

fun flatten :: "nat option \<Rightarrow> ('k, 'v) node \<Rightarrow> 'k list \<Rightarrow> ('k, 'v) unit list" where
  "flatten depth (Leaf v a s) pre = [(pre, Val v, a, s)]"
| "flatten depth (Branch cs a s n) pre =
     (if (case depth of None \<Rightarrow> False | Some d \<Rightarrow> d \<le> length pre)
      then [(pre, Children cs, a, s)]
      else concat (map (\<lambda>child. flatten depth (snd child) (pre @ [fst child])) cs))"

text \<open>
  The eviction loop. Its result lists the evicted units \<^verbatim>\<open>[key, value, size]\<close>, the
  argument of the \<^verbatim>\<open>pruned\<close> callback.
\<close>

fun prune_loop :: "int \<Rightarrow> ('k, 'v) node \<Rightarrow> ('k, 'v) unit list
    \<Rightarrow> (error + ('k list \<times> ('k, 'v) slot0 \<times> int) list) \<times> ('k, 'v) node" where
  "prune_loop cap r [] = (Inr [], r)"
| "prune_loop cap r ((key, val, t, sz) # rest) =
     (if size_of r \<le> cap then (Inr [], r)
      else
        (case deleteImpl r key of
           (Inl e, r') \<Rightarrow> (Inl e, r')
         | (Inr d, r') \<Rightarrow>
             (case prune_loop cap r' rest of
                (Inl e, r'') \<Rightarrow> (Inl e, r'')
              | (Inr pruned, r'') \<Rightarrow> (Inr ((key, val, sz) # pruned), r''))))"

definition prune :: "options \<Rightarrow> ('k, 'v) memcache \<Rightarrow> time
    \<Rightarrow> (error + ('k list \<times> ('k, 'v) slot0 \<times> int) list) \<times> ('k, 'v) memcache" where
  "prune opts c now =
     (let c1 = c\<lparr>lastPruneAt := now\<rparr>
      in case capacity opts of
           None \<Rightarrow> (Inr [], c1)
         | Some cap \<Rightarrow>
             if cache_size c1 \<le> int cap then (Inr [], c1)
             else
               (let flattened = sort_key (\<lambda>(key, val, t, sz). t) (flatten (pruneDepth opts) (root c1) []);
                    (res, r') = prune_loop (int cap) (root c1) flattened
                in (res, c1\<lparr>root := r'\<rparr>)))"

definition shouldAutoPrune :: "options \<Rightarrow> ('k, 'v) memcache \<Rightarrow> time \<Rightarrow> bool" where
  "shouldAutoPrune opts c now =
     (if \<not> autoPrune opts then False
      else if (case capacity opts of None \<Rightarrow> True | Some cap \<Rightarrow> cache_size c \<le> int cap) then False
      else
        (case autoPruneInterval opts of
           None \<Rightarrow> True
         | Some interval \<Rightarrow> now - lastPruneAt c \<ge> interval))"

text \<open>The \<^verbatim>\<open>finally\<close> block of \<^verbatim>\<open>insertOne\<close>, also the tail of \<^verbatim>\<open>insertMany\<close>.\<close>

definition autoPrune_check :: "options \<Rightarrow> ('k, 'v) memcache \<Rightarrow> time
    \<Rightarrow> error option \<times> ('k, 'v) memcache" where
  "autoPrune_check opts c now =
     (if shouldAutoPrune opts c now
      then (case prune opts c now of (Inl e, c') \<Rightarrow> (Some e, c') | (Inr pruned, c') \<Rightarrow> (None, c'))
      else (None, c))"

section \<open>The partial view and the public operations\<close>

text \<open>
  A \<^verbatim>\<open>CachePartial\<close> keeps its prefix and a reference to the Branch found at that prefix.
  The model holds the Branch as it is when the view is used; the operations that mutate it
  return it updated. The cache's own \<^verbatim>\<open>rootPartial\<close> has the empty prefix and the root.
\<close>

record ('k, 'v) cache_partial =
  view_prefix :: "'k list"
  view_root :: "('k, 'v) node"

definition partial_get :: "('k, 'v) cache_partial \<Rightarrow> 'k list \<Rightarrow> bool \<Rightarrow> time
    \<Rightarrow> (error + 'v option) \<times> ('k, 'v) cache_partial" where
  "partial_get p key updateAccessTime now =
     (case getImpl now (view_root p) key updateAccessTime of
        (res, r') \<Rightarrow>
          ((case res of
              Inl e \<Rightarrow> Inl e
            | Inr None \<Rightarrow> Inr None
            | Inr (Some node) \<Rightarrow>
                (case node of Leaf v a s \<Rightarrow> Inr (Some v) | Branch cs a s n \<Rightarrow> Inr None)),
           p\<lparr>view_root := r'\<rparr>))"

definition partial_sizeof :: "('k, 'v) cache_partial \<Rightarrow> 'k list \<Rightarrow> error + int option" where
  "partial_sizeof p key =
     (case node_at (view_root p) (view_prefix p @ key) of
        Inl e \<Rightarrow> Inl e
      | Inr None \<Rightarrow> Inr None
      | Inr (Some node) \<Rightarrow> Inr (Some (size_of node)))"

definition partial_atime :: "('k, 'v) cache_partial \<Rightarrow> 'k list \<Rightarrow> error + time option" where
  "partial_atime p key =
     (case node_at (view_root p) (view_prefix p @ key) of
        Inl e \<Rightarrow> Inl e
      | Inr None \<Rightarrow> Inr None
      | Inr (Some node) \<Rightarrow> Inr (Some (atime_of node)))"

definition partial_count :: "('k, 'v) cache_partial \<Rightarrow> int" where
  "partial_count p = count_of (view_root p)"

definition rootPartial :: "('k, 'v) memcache \<Rightarrow> ('k, 'v) cache_partial" where
  "rootPartial c = \<lparr>view_prefix = [], view_root = root c\<rparr>"

definition count :: "('k, 'v) memcache \<Rightarrow> int" where
  "count c = partial_count (rootPartial c)"

definition get :: "('k, 'v) memcache \<Rightarrow> 'k list \<Rightarrow> bool \<Rightarrow> time
    \<Rightarrow> (error + 'v option) \<times> ('k, 'v) memcache" where
  "get c key updateAccessTime now =
     (case partial_get (rootPartial c) key updateAccessTime now of
        (res, p') \<Rightarrow> (res, c\<lparr>root := view_root p'\<rparr>))"

definition cache_sizeof :: "('k, 'v) memcache \<Rightarrow> 'k list \<Rightarrow> error + int option" where
  "cache_sizeof c key = partial_sizeof (rootPartial c) key"

definition atime :: "('k, 'v) memcache \<Rightarrow> 'k list \<Rightarrow> error + time option" where
  "atime c key = partial_atime (rootPartial c) key"

definition partial :: "('k, 'v) memcache \<Rightarrow> 'k list \<Rightarrow> error + ('k, 'v) cache_partial option" where
  "partial c key =
     (case node_at (root c) key of
        Inl e \<Rightarrow> Inl e
      | Inr None \<Rightarrow> Inr None
      | Inr (Some node) \<Rightarrow>
          (if isLeaf node then Inr None else Inr (Some \<lparr>view_prefix = key, view_root = node\<rparr>)))"



subsection \<open>Writes of \<^verbatim>\<open>MemCache\<close>\<close>

text \<open>
  An exception leaves the state as it is when it is thrown; the \<^verbatim>\<open>finally\<close> block of
  \<^verbatim>\<open>insertOne\<close> runs the eviction check in either case.
\<close>

definition insertOne :: "options \<Rightarrow> ('v \<Rightarrow> nat) \<Rightarrow> ('k, 'v) memcache \<Rightarrow> 'k list \<Rightarrow> 'v \<Rightarrow> bool \<Rightarrow> time
    \<Rightarrow> (error + int option) \<times> ('k, 'v) memcache" where
  "insertOne opts sizeof c key val replace now =
     (case insertImpl sizeof (root c) key val now replace of
        (res, r') \<Rightarrow>
          (case autoPrune_check opts (c\<lparr>root := r'\<rparr>) now of
             (Some e, c') \<Rightarrow> (Inl e, c')
           | (None, c') \<Rightarrow>
               ((case res of Inl e \<Rightarrow> Inl e | Inr (sz, diff, inserted) \<Rightarrow> Inr sz), c')))"

fun insertMany_loop :: "('v \<Rightarrow> nat) \<Rightarrow> ('k, 'v) node \<Rightarrow> ('k list \<times> 'v) list \<Rightarrow> bool \<Rightarrow> time \<Rightarrow> int
    \<Rightarrow> (error + int) \<times> ('k, 'v) node" where
  "insertMany_loop sizeof r [] replace now totalSize = (Inr totalSize, r)"
| "insertMany_loop sizeof r ((key, val) # rest) replace now totalSize =
     (case insertImpl sizeof r key val now replace of
        (Inl e, r') \<Rightarrow> (Inl e, r')
      | (Inr (sz, diff, inserted), r') \<Rightarrow>
          insertMany_loop sizeof r' rest replace now
            (totalSize + (case sz of None \<Rightarrow> 0 | Some x \<Rightarrow> x)))"

definition insertMany :: "options \<Rightarrow> ('v \<Rightarrow> nat) \<Rightarrow> ('k, 'v) memcache \<Rightarrow> ('k list \<times> 'v) list \<Rightarrow> bool
    \<Rightarrow> time \<Rightarrow> (error + int) \<times> ('k, 'v) memcache" where
  "insertMany opts sizeof c vals replace now =
     (case insertMany_loop sizeof (root c) vals replace now 0 of
        (Inl e, r') \<Rightarrow> (Inl e, c\<lparr>root := r'\<rparr>)
      | (Inr totalSize, r') \<Rightarrow>
          (case autoPrune_check opts (c\<lparr>root := r'\<rparr>) now of
             (Some e, c') \<Rightarrow> (Inl e, c')
           | (None, c') \<Rightarrow> (Inr totalSize, c')))"

text \<open>
  \<^verbatim>\<open>get\<close> returns \<^verbatim>\<open>undefined\<close> for an absent key, here \<open>None\<close>, and the stored value
  otherwise. A stored value may itself be \<^verbatim>\<open>null\<close> or \<^verbatim>\<open>undefined\<close>; the parameter
  \<open>nullish\<close> tells so of a value. The test \<^verbatim>\<open>existing == null\<close> of \<^verbatim>\<open>ensure\<close> holds in
  both cases, and \<^verbatim>\<open>existing ?? value\<close> is then \<^verbatim>\<open>value\<close>.
\<close>

definition ensure :: "options \<Rightarrow> ('v \<Rightarrow> nat) \<Rightarrow> ('v \<Rightarrow> bool) \<Rightarrow> ('k, 'v) memcache \<Rightarrow> 'k list \<Rightarrow> 'v
    \<Rightarrow> time \<Rightarrow> (error + 'v) \<times> ('k, 'v) memcache" where
  "ensure opts sizeof nullish c key val now =
     (case get c key False now of
        (Inl e, c1) \<Rightarrow> (Inl e, c1)
      | (Inr None, c1) \<Rightarrow>
          (case insertOne opts sizeof c1 key val False now of
             (Inl e, c2) \<Rightarrow> (Inl e, c2)
           | (Inr sz, c2) \<Rightarrow> (Inr val, c2))
      | (Inr (Some existing), c1) \<Rightarrow>
          (if nullish existing
           then (case insertOne opts sizeof c1 key val False now of
                   (Inl e, c2) \<Rightarrow> (Inl e, c2)
                 | (Inr sz, c2) \<Rightarrow> (Inr val, c2))
           else (Inr existing, c1)))"

definition deleteOne :: "('k, 'v) memcache \<Rightarrow> 'k list \<Rightarrow> error option \<times> ('k, 'v) memcache" where
  "deleteOne c key =
     (case deleteImpl (root c) key of
        (Inl e, r') \<Rightarrow> (Some e, c\<lparr>root := r'\<rparr>)
      | (Inr d, r') \<Rightarrow> (None, c\<lparr>root := r'\<rparr>))"

fun deleteMany :: "('k, 'v) memcache \<Rightarrow> 'k list list \<Rightarrow> error option \<times> ('k, 'v) memcache" where
  "deleteMany c [] = (None, c)"
| "deleteMany c (key # keys) =
     (case deleteOne c key of
        (Some e, c') \<Rightarrow> (Some e, c')
      | (None, c') \<Rightarrow> deleteMany c' keys)"

text \<open>
  The constructor: the field initialisers read the clock for the root and for
  \<^verbatim>\<open>lastPruneAt\<close>, then the initial values are inserted.
\<close>

definition empty_cache :: "time \<Rightarrow> ('k, 'v) memcache" where
  "empty_cache now = \<lparr>root = Branch [] now 0 0, lastPruneAt = now\<rparr>"

definition new_cache :: "options \<Rightarrow> ('v \<Rightarrow> nat) \<Rightarrow> ('k list \<times> 'v) list \<Rightarrow> time \<Rightarrow> ('k, 'v) memcache" where
  "new_cache opts sizeof vals now = snd (insertMany opts sizeof (empty_cache now) vals True now)"

subsection \<open>Writes of \<^verbatim>\<open>CachePartial\<close>\<close>


definition partial_insertMany :: "options \<Rightarrow> ('v \<Rightarrow> nat) \<Rightarrow> ('k, 'v) memcache \<Rightarrow> ('k, 'v) cache_partial
    \<Rightarrow> ('k list \<times> 'v) list \<Rightarrow> bool \<Rightarrow> time \<Rightarrow> (error + int) \<times> ('k, 'v) memcache" where
  "partial_insertMany opts sizeof c p vals replace now = insertMany opts sizeof c vals replace now"




section \<open>Sequences of public operations\<close>

text \<open>
  A call of the public interface, with the clock reading it sees. \<open>run\<close> applies calls one
  after the other to the state; a caller may catch an exception and go on, so the run goes
  on after a call that throws.
  The estimator \<open>sizeof\<close> and the test \<open>nullish\<close> are those of the values of
  the cache, the same for every call.
\<close>

datatype ('k, 'v) call =
    InsertOne "'k list" 'v bool time
  | InsertMany "('k list \<times> 'v) list" bool time
  | Ensure "'k list" 'v time
  | DeleteOne "'k list"
  | DeleteMany "'k list list"
  | Clear
  | Prune time
  | Get "'k list" bool time

fun step :: "options \<Rightarrow> ('v \<Rightarrow> nat) \<Rightarrow> ('v \<Rightarrow> bool) \<Rightarrow> ('k, 'v) memcache \<Rightarrow> ('k, 'v) call
    \<Rightarrow> ('k, 'v) memcache" where
  "step opts sizeof nullish c (InsertOne key val replace now) = snd (insertOne opts sizeof c key val replace now)"
| "step opts sizeof nullish c (InsertMany vals replace now) = snd (insertMany opts sizeof c vals replace now)"
| "step opts sizeof nullish c (Ensure key val now) = snd (ensure opts sizeof nullish c key val now)"
| "step opts sizeof nullish c (DeleteOne key) = snd (deleteOne c key)"
| "step opts sizeof nullish c (DeleteMany keys) = snd (deleteMany c keys)"
| "step opts sizeof nullish c Clear = clear c"
| "step opts sizeof nullish c (Prune now) = snd (prune opts c now)"
| "step opts sizeof nullish c (Get key updateAccessTime now) = snd (get c key updateAccessTime now)"

definition run :: "options \<Rightarrow> ('v \<Rightarrow> nat) \<Rightarrow> ('v \<Rightarrow> bool) \<Rightarrow> ('k, 'v) memcache \<Rightarrow> ('k, 'v) call list
    \<Rightarrow> ('k, 'v) memcache" where
  "run opts sizeof nullish c calls = foldl (step opts sizeof nullish) c calls"

section \<open>Iteration: \<^verbatim>\<open>CachePartial.nodes\<close>, \<^verbatim>\<open>entries\<close>, \<^verbatim>\<open>keys\<close>\<close>

fun iterNode :: "('k, 'v) node \<Rightarrow> 'k list \<Rightarrow> ('k list \<times> ('k, 'v) node) list" where
  "iterNode (Leaf v a s) pre = [(pre, Leaf v a s)]"
| "iterNode (Branch cs a s n) pre =
     concat (map (\<lambda>child. iterNode (snd child) (pre @ [fst child])) cs)"

definition keys :: "('k, 'v) memcache \<Rightarrow> 'k list list" where
  "keys c = map fst (iterNode (root c) [])"

section \<open>Invariants of the trie\<close>

text \<open>The number of Leaf descendants of a node.\<close>

fun leaves :: "('k, 'v) node \<Rightarrow> nat" where
  "leaves (Leaf v a s) = 1"
| "leaves (Branch cs a s n) = sum_list (map (\<lambda>child. leaves (snd child)) cs)"

text \<open>
  Every Branch below and including the node has the sum of its children's sizes as its
  aggregate size, no size is negative, and no child map has a key twice.
\<close>

fun size_inv :: "('k, 'v) node \<Rightarrow> bool" where
  "size_inv (Leaf v a s) = (0 \<le> s)"
| "size_inv (Branch cs a s n) =
     (distinct (map fst cs) \<and> 0 \<le> s \<and> s = sum_list (map (\<lambda>child. size_of (snd child)) cs)
      \<and> list_all (\<lambda>child. size_inv (snd child)) cs)"

text \<open>Every Branch below and including the node counts its Leaf descendants.\<close>

fun count_inv :: "('k, 'v) node \<Rightarrow> bool" where
  "count_inv (Leaf v a s) = True"
| "count_inv (Branch cs a s n) =
     (n = int (leaves (Branch cs a s n)) \<and> list_all (\<lambda>child. count_inv (snd child)) cs)"

section \<open>The example of the test suite\<close>

text \<open>
  Capacity 100, no automatic pruning, \<^verbatim>\<open>pruneDepth: 1\<close>; the size estimator is the
  mock of the tests, which gives a number its own value; five inserts of size 30 at the
  times \<open>t0\<close> to \<open>t4\<close>.
\<close>

definition example_options :: options where
  "example_options =
     \<lparr>capacity = Some 100, autoPrune = False, autoPruneInterval = None, pruneDepth = Some 1\<rparr>"

definition example_calls :: "time \<Rightarrow> time \<Rightarrow> time \<Rightarrow> time \<Rightarrow> time \<Rightarrow> (nat, nat) call list" where
  "example_calls t0 t1 t2 t3 t4 =
     [InsertOne [1, 1] 30 True t0, InsertOne [2, 1] 30 True t1, InsertOne [2, 2] 30 True t2,
      InsertOne [1, 2] 30 True t3, InsertOne [1, 3] 30 True t4]"

definition example_cache :: "time \<Rightarrow> time \<Rightarrow> time \<Rightarrow> time \<Rightarrow> time \<Rightarrow> (nat, nat) memcache" where
  "example_cache t0 t1 t2 t3 t4 =
     run example_options (\<lambda>v. v) (\<lambda>v. False) (empty_cache t0) (example_calls t0 t1 t2 t3 t4)"

text \<open>A cache without a capacity never prunes.\<close>

definition unbounded :: options where
  "unbounded = \<lparr>capacity = None, autoPrune = True, autoPruneInterval = None, pruneDepth = None\<rparr>"

section \<open>Small caches used below\<close>

text \<open>One value of size 40 under the key (1, 2), and the view at the prefix (1).\<close>

definition view_cache :: "(nat, nat) memcache" where
  "view_cache = snd (insertOne unbounded (\<lambda>v. v) (empty_cache 0) [1, 2] 40 True 1)"

definition view_example :: "(nat, nat) cache_partial" where
  "view_example = \<lparr>view_prefix = [1], view_root = Branch [(2, Leaf 40 1 40)] 1 40 1\<rparr>"

text \<open>Capacity 100 with \<^verbatim>\<open>pruneDepth: 0\<close>.\<close>

definition depth0_options :: options where
  "depth0_options =
     \<lparr>capacity = Some 100, autoPrune = True, autoPruneInterval = None, pruneDepth = Some 0\<rparr>"

section \<open>Auxiliary definitions for the properties\<close>

text \<open>A node with every access timestamp, its own and those below it, set to 0.\<close>

fun forget_atime :: "('k, 'v) node \<Rightarrow> ('k, 'v) node" where
  "forget_atime (Leaf v a s) = Leaf v 0 s"
| "forget_atime (Branch cs a s n) =
     Branch (map (\<lambda>child. (fst child, forget_atime (snd child))) cs) 0 s n"

text \<open>
  The child that a recursive call of \<^verbatim>\<open>insertImpl\<close> works on: the one under \<open>head\<close>, or the
  empty Branch created for it.
\<close>

definition child_or_new :: "('k \<times> ('k, 'v) node) list \<Rightarrow> 'k \<Rightarrow> time \<Rightarrow> ('k, 'v) node" where
  "child_or_new cs head date = (case map_get cs head of None \<Rightarrow> Branch [] date 0 0 | Some c \<Rightarrow> c)"

text \<open>
  Capacity 100 with automatic pruning, at once and with an interval of 1000 ms. With the
  interval, two inserts of 60 and 70 bytes right after construction leave the cache over
  capacity, the eviction pending.
\<close>

definition bounded_options :: options where
  "bounded_options =
     \<lparr>capacity = Some 100, autoPrune = True, autoPruneInterval = None, pruneDepth = None\<rparr>"

definition debounced_options :: options where
  "debounced_options =
     \<lparr>capacity = Some 100, autoPrune = True, autoPruneInterval = Some 1000, pruneDepth = None\<rparr>"

definition debounced_cache :: "(nat, nat) memcache" where
  "debounced_cache =
     run debounced_options (\<lambda>v. v) (\<lambda>v. False) (empty_cache 0) [InsertOne [1] 60 True 1, InsertOne [2] 70 True 2]"

text \<open>The example of the test suite at the times 0 to 4.\<close>

definition example5 :: "(nat, nat) memcache" where
  "example5 = example_cache 0 1 2 3 4"

text \<open>
  The keys that \<^verbatim>\<open>flatten\<close> lists for a node found at depth \<open>l\<close>: the walk along \<open>k\<close>
  ends at a node that is a Leaf or lies at the prune depth, and does not go deeper.
\<close>

definition prune_unit :: "nat option \<Rightarrow> nat \<Rightarrow> ('k, 'v) node \<Rightarrow> 'k list \<Rightarrow> bool" where
  "prune_unit pd l r k =
     (case node_at r k of
        Inr (Some n) \<Rightarrow>
          (case pd of
             None \<Rightarrow> isLeaf n
           | Some d \<Rightarrow> (k = [] \<or> l + length k \<le> d) \<and> (isLeaf n \<or> d \<le> l + length k))
      | _ \<Rightarrow> False)"

text \<open>The deletions of the eviction loop, each by its full key from the root.\<close>

definition delete_all :: "('k, 'v) node \<Rightarrow> 'k list list \<Rightarrow> ('k, 'v) node" where
  "delete_all r ks = foldl (\<lambda>r' key. snd (deleteImpl r' key)) r ks"

text \<open>What the \<^verbatim>\<open>pruned\<close> callback is told of a unit.\<close>

definition evicted_of :: "('k, 'v) unit \<Rightarrow> 'k list \<times> ('k, 'v) slot0 \<times> int" where
  "evicted_of u = (case u of (key, val, t, sz) \<Rightarrow> (key, val, sz))"

text \<open>
  Keys of one length \<open>d\<close>: every Leaf lies \<open>d\<close> levels below the node, every Branch
  higher. \<open>trie_inv\<close> adds the invariants of sizes and of counts.
\<close>

fun depth_inv :: "nat \<Rightarrow> ('k, 'v) node \<Rightarrow> bool" where
  "depth_inv d (Leaf v a s) = (d = 0)"
| "depth_inv d (Branch cs a s n) = (0 < d \<and> list_all (\<lambda>child. depth_inv (d - 1) (snd child)) cs)"

definition trie_inv :: "nat \<Rightarrow> ('k, 'v) node \<Rightarrow> bool" where
  "trie_inv d r \<longleftrightarrow> size_inv r \<and> count_inv r \<and> depth_inv d r"

text \<open>
  A call that keeps to keys of length \<open>d\<close> where it stores, and is not \<^verbatim>\<open>clear()\<close>.
\<close>

fun fixed_depth :: "nat \<Rightarrow> ('k, 'v) call \<Rightarrow> bool" where
  "fixed_depth d (InsertOne key val replace now) = (length key = d)"
| "fixed_depth d (InsertMany vals replace now) = list_all (\<lambda>kv. length (fst kv) = d) vals"
| "fixed_depth d (Ensure key val now) = (length key = d)"
| "fixed_depth d (DeleteOne key) = True"
| "fixed_depth d (DeleteMany ks) = True"
| "fixed_depth d Clear = False"
| "fixed_depth d (Prune now) = True"
| "fixed_depth d (Get key updateAccessTime now) = True"

text \<open>
  The access time of a unit, and the list that the eviction loop of \<^verbatim>\<open>prune()\<close> runs
  through: the units in the order of \<^verbatim>\<open>flatten\<close>, sorted by access time.
\<close>

definition unit_atime :: "('k, 'v) unit \<Rightarrow> time" where
  "unit_atime u = (case u of (key, val, t, sz) \<Rightarrow> t)"

definition flattened :: "options \<Rightarrow> ('k, 'v) memcache \<Rightarrow> ('k, 'v) unit list" where
  "flattened opts c = sort_key (\<lambda>(key, val, t, sz). t) (flatten (pruneDepth opts) (root c) [])"

text \<open>The access timestamp of the node at a key below a node.\<close>

definition atime_at :: "('k, 'v) node \<Rightarrow> 'k list \<Rightarrow> error + time option" where
  "atime_at r q =
     (case node_at r q of
        Inl e \<Rightarrow> Inl e
      | Inr None \<Rightarrow> Inr None
      | Inr (Some n) \<Rightarrow> Inr (Some (atime_of n)))"

text \<open>
  One value of 60 bytes under the key (1), stored at time 1, in a cache of capacity 100
  that prunes automatically.
\<close>

definition sixty_cache :: "(nat, nat) memcache" where
  "sixty_cache = snd (insertOne bounded_options (\<lambda>v. v) (empty_cache 0) [1] 60 True 1)"



section \<open>Properties\<close>

subsection \<open>Facts about the child map\<close>

lemma map_get_set_same: "map_get (map_set cs k y) k = Some y"
  by (induction cs) auto

lemma map_get_set_other: "k' \<noteq> k \<Longrightarrow> map_get (map_set cs k y) k' = map_get cs k'"
  by (induction cs) auto

lemma map_set_keys:
  "map fst (map_set cs k y) = (if map_get cs k = None then map fst cs @ [k] else map fst cs)"
  by (induction cs) (auto split: if_splits)

lemma map_get_None_iff: "map_get cs k = None \<longleftrightarrow> k \<notin> fst ` set cs"
  by (induction cs) (auto split: if_splits)

lemma distinct_map_set: "distinct (map fst cs) \<Longrightarrow> distinct (map fst (map_set cs k y))"
  by (auto simp: map_set_keys map_get_None_iff)

lemma map_delete_keys: "map fst (map_delete cs k) = filter (\<lambda>k'. k' \<noteq> k) (map fst cs)"
  by (induction cs) auto

lemma distinct_map_delete: "distinct (map fst cs) \<Longrightarrow> distinct (map fst (map_delete cs k))"
  by (simp add: map_delete_keys)

lemma map_get_Some_mem: "map_get cs k = Some x \<Longrightarrow> (k, x) \<in> set cs"
  by (induction cs) (auto split: if_splits)

lemma list_all_map_set:
  "list_all P cs \<Longrightarrow> P (k, y) \<Longrightarrow> list_all P (map_set cs k y)"
  by (induction cs) auto

lemma list_all_map_delete: "list_all P cs \<Longrightarrow> list_all P (map_delete cs k)"
  by (induction cs) auto

lemma sum_map_set:
  fixes g :: "'a \<Rightarrow> int"
  shows "(\<Sum>c\<leftarrow>map_set cs k y. g (snd c)) =
     (\<Sum>c\<leftarrow>cs. g (snd c)) - (case map_get cs k of None \<Rightarrow> 0 | Some x \<Rightarrow> g x) + g y"
  by (induction cs) auto

lemma map_delete_absent: "map_get cs k = None \<Longrightarrow> map_delete cs k = cs"
  by (induction cs) (auto split: if_splits)

lemma sum_map_delete:
  fixes g :: "'a \<Rightarrow> int"
  shows "distinct (map fst cs) \<Longrightarrow> map_get cs k = Some x \<Longrightarrow>
     (\<Sum>c\<leftarrow>map_delete cs k. g (snd c)) = (\<Sum>c\<leftarrow>cs. g (snd c)) - g x"
  by (induction cs) (auto simp: map_delete_absent map_get_None_iff split: if_splits)

subsection \<open>The size invariant\<close>

lemma size_inv_nonneg: "size_inv node \<Longrightarrow> 0 \<le> size_of node"
  by (cases node) auto

lemma sum_sizes_nonneg:
  "list_all (\<lambda>child. size_inv (snd child)) cs \<Longrightarrow> 0 \<le> (\<Sum>child\<leftarrow>cs. size_of (snd child))"
  by (induction cs) (auto dest: size_inv_nonneg)

lemma size_inv_Branch:
  "size_inv (Branch cs a s n) \<longleftrightarrow>
     distinct (map fst cs) \<and> s = (\<Sum>child\<leftarrow>cs. size_of (snd child))
     \<and> list_all (\<lambda>child. size_inv (snd child)) cs"
  using sum_sizes_nonneg [of cs] by auto

lemma size_inv_child:
  "list_all (\<lambda>child. size_inv (snd child)) cs \<Longrightarrow> map_get cs k = Some x \<Longrightarrow> size_inv x"
  by (auto dest!: map_get_Some_mem simp: list_all_iff)

lemma size_inv_touch: "size_inv (touch now node) = size_inv node"
  by (cases node) auto

lemma size_of_touch: "size_of (touch now node) = size_of node"
  by (cases node) auto

lemma size_inv_insertImpl:
  "size_inv b \<Longrightarrow> insertImpl sizeof b key val date replace = (res, b') \<Longrightarrow>
     size_inv b' \<and>
     size_of b' = size_of b + (case res of Inl e \<Rightarrow> 0 | Inr (sz, diff, inserted) \<Rightarrow> diff)"
proof (induction sizeof b key val date replace arbitrary: res b' rule: insertImpl.induct)
  case (1 sizeof branch val date replace)
  then show ?case by auto
next
  case (2 sizeof branch head val date replace)
  show ?case
  proof (cases branch)
    case (Leaf v a s)
    with 2 show ?thesis by auto
  next
    case (Branch cs a s n)
    with 2 show ?thesis
      by (auto simp: size_inv_Branch Let_def distinct_map_set list_all_map_set sum_map_set
          simp del: size_inv.simps(2) split: if_splits option.splits dest: size_inv_child)
  qed
next
  case (3 sizeof branch head t ts val date replace)
  show ?case
  proof (cases branch)
    case (Leaf v a s)
    with 3 show ?thesis by auto
  next
    case (Branch cs a s n)
    define child where "child = (case map_get cs head of None \<Rightarrow> Branch [] date 0 0 | Some c \<Rightarrow> c)"
    define cs' where "cs' = (case map_get cs head of None \<Rightarrow> map_set cs head (Branch [] date 0 0) | Some c \<Rightarrow> cs)"
    obtain r child' where rec: "insertImpl sizeof child (t # ts) val date replace = (r, child')"
      by (cases "insertImpl sizeof child (t # ts) val date replace")
    have inv: "distinct (map fst cs)" "s = (\<Sum>c\<leftarrow>cs. size_of (snd c))"
      "list_all (\<lambda>c. size_inv (snd c)) cs"
      using "3.prems"(1) Branch by (auto simp: size_inv_Branch simp del: size_inv.simps(2))
    have child_inv: "size_inv child"
      using inv by (auto simp: child_def split: option.splits dest: size_inv_child)
    have cs'_get: "map_get cs' head = Some child"
      by (auto simp: cs'_def child_def map_get_set_same split: option.splits)
    have cs'_inv: "distinct (map fst cs')" "list_all (\<lambda>c. size_inv (snd c)) cs'"
      "(\<Sum>c\<leftarrow>cs'. size_of (snd c)) = s"
      using inv by (auto simp: cs'_def distinct_map_set list_all_map_set sum_map_set size_inv_Branch
          simp del: size_inv.simps(2) split: option.splits)
    have pair: "(case map_get cs head of
                    None \<Rightarrow> (Branch [] date 0 0, map_set cs head (Branch [] date 0 0))
                  | Some c \<Rightarrow> (c, cs)) = (child, cs')"
      by (simp add: child_def cs'_def split: option.splits)
    have IH: "size_inv child' \<and>
      size_of child' = size_of child + (case r of Inl e \<Rightarrow> 0 | Inr (sz, diff, inserted) \<Rightarrow> diff)"
      using "3.IH" [OF Branch pair [symmetric] refl child_inv rec] .
    have b': "b' = (case r of Inl e \<Rightarrow> Branch (map_set cs' head child') a s n
        | Inr (sz, diff, inserted) \<Rightarrow> Branch (map_set cs' head child') date (s + diff) (n + (if inserted then 1 else 0)))"
      and res: "res = r"
      using "3.prems"(2) Branch rec pair by (auto split: sum.splits prod.splits)
    show ?thesis
      using IH cs'_inv cs'_get Branch
      by (auto simp: b' res size_inv_Branch distinct_map_set list_all_map_set sum_map_set
          simp del: size_inv.simps(2) split: sum.splits)
  qed
qed

lemma map_set_same_value: "map_get cs k = Some x \<Longrightarrow> map_set cs k x = cs"
  by (induction cs) (auto split: if_splits)

lemma size_inv_deleteImpl:
  "size_inv b \<Longrightarrow> deleteImpl b key = (res, b') \<Longrightarrow>
     size_inv b' \<and>
     size_of b' = size_of b - (case res of Inr (Some deleted) \<Rightarrow> size_of deleted | _ \<Rightarrow> 0)"
proof (induction b key arbitrary: res b' rule: deleteImpl.induct)
  case (1 branch)
  then show ?case by auto
next
  case (2 branch head)
  show ?case
  proof (cases branch)
    case (Leaf v a s)
    with 2 show ?thesis by auto
  next
    case (Branch cs a s n)
    with 2 show ?thesis
      by (auto simp: size_inv_Branch distinct_map_delete list_all_map_delete sum_map_delete
          simp del: size_inv.simps(2) split: option.splits)
  qed
next
  case (3 branch head t ts)
  show ?case
  proof (cases branch)
    case (Leaf v a s)
    with 3 show ?thesis by auto
  next
    case (Branch cs a s n)
    have inv: "distinct (map fst cs)" "s = (\<Sum>c\<leftarrow>cs. size_of (snd c))"
      "list_all (\<lambda>c. size_inv (snd c)) cs"
      using "3.prems"(1) Branch by (auto simp: size_inv_Branch simp del: size_inv.simps(2))
    show ?thesis
    proof (cases "map_get cs head")
      case None
      with 3 Branch show ?thesis by auto
    next
      case (Some child)
      obtain r child' where rec: "deleteImpl child (t # ts) = (r, child')"
        by (cases "deleteImpl child (t # ts)")
      have child_inv: "size_inv child"
        using inv Some by (auto dest: size_inv_child)
      have IH: "size_inv child' \<and>
        size_of child' = size_of child - (case r of Inr (Some deleted) \<Rightarrow> size_of deleted | _ \<Rightarrow> 0)"
        using "3.IH" [OF Branch Some child_inv rec] .
      have b': "b' = Branch (map_set cs head child') a
           (s - (case r of Inr (Some deleted) \<Rightarrow> size_of deleted | _ \<Rightarrow> 0))
           (n - (case r of Inr (Some deleted) \<Rightarrow> (if isBranch deleted then count_of deleted else 1) | _ \<Rightarrow> 0))"
        and res: "res = r"
        using "3.prems"(2) Branch Some rec by (auto split: sum.splits option.splits)
      show ?thesis
        using IH inv Some Branch
        by (auto simp: b' res size_inv_Branch distinct_map_set list_all_map_set sum_map_set
            simp del: size_inv.simps(2) split: sum.splits option.splits)
    qed
  qed
qed

lemma size_inv_getImpl:
  "size_inv node \<Longrightarrow> getImpl now node key u = (res, node') \<Longrightarrow>
     size_inv node' \<and> size_of node' = size_of node"
proof (induction now node key u arbitrary: res node' rule: getImpl.induct)
  case (1 now node u)
  then show ?case by (auto simp: size_inv_touch size_of_touch Let_def)
next
  case (2 now node head tail u)
  define node1 where "node1 = (if u then touch now node else node)"
  have n1: "size_inv node1" "size_of node1 = size_of node"
    using "2.prems"(1) by (auto simp: node1_def size_inv_touch size_of_touch)
  show ?case
  proof (cases node1)
    case (Leaf v a s)
    with 2 n1 show ?thesis by (auto simp: node1_def [symmetric] Let_def)
  next
    case (Branch cs a s n)
    have inv: "distinct (map fst cs)" "s = (\<Sum>c\<leftarrow>cs. size_of (snd c))"
      "list_all (\<lambda>c. size_inv (snd c)) cs"
      using n1 Branch by (auto simp: size_inv_Branch simp del: size_inv.simps(2))
    show ?thesis
    proof (cases "map_get cs head")
      case None
      with "2.prems" n1 Branch show ?thesis by (auto simp: node1_def [symmetric] Let_def)
    next
      case (Some child)
      obtain r child' where rec: "getImpl now child tail u = (r, child')"
        by (cases "getImpl now child tail u")
      have child_inv: "size_inv child"
        using inv Some by (auto dest: size_inv_child)
      have IH: "size_inv child' \<and> size_of child' = size_of child"
        using "2.IH" [OF node1_def Branch Some child_inv rec] .
      have b': "node' = Branch (map_set cs head child') a s n"
        using "2.prems"(2) Branch Some rec by (auto simp: node1_def [symmetric] Let_def)
      show ?thesis
        using IH inv Some Branch n1
        by (auto simp: b' size_inv_Branch distinct_map_set list_all_map_set sum_map_set
            simp del: size_inv.simps(2))
    qed
  qed
qed

lemma size_inv_prune_loop:
  "size_inv r \<Longrightarrow> prune_loop cap r us = (res, r') \<Longrightarrow> size_inv r'"
proof (induction cap r us arbitrary: res r' rule: prune_loop.induct)
  case (1 cap r)
  then show ?case by simp
next
  case (2 cap r key val t sz rest)
  show ?case
  proof (cases "size_of r \<le> cap")
    case True
    with 2 show ?thesis by simp
  next
    case False
    obtain d r1 where del: "deleteImpl r key = (d, r1)"
      by (cases "deleteImpl r key")
    have r1: "size_inv r1"
      using size_inv_deleteImpl [OF "2.prems"(1) del] by simp
    show ?thesis
    proof (cases d)
      case (Inl e)
      with 2 False del r1 show ?thesis by simp
    next
      case (Inr x)
      obtain res2 r2 where rec: "prune_loop cap r1 rest = (res2, r2)"
        by (cases "prune_loop cap r1 rest")
      have "size_inv r2"
        using "2.IH" [OF False del [symmetric] Inr r1 rec] .
      with "2.prems"(2) False del Inr rec show ?thesis
        by (auto split: sum.splits)
    qed
  qed
qed

lemma size_inv_prune: "size_inv (root c) \<Longrightarrow> size_inv (root (snd (prune opts c now)))"
  by (auto simp: prune_def Let_def split: option.splits prod.splits dest: size_inv_prune_loop)

lemma size_inv_autoPrune_check:
  "size_inv (root c) \<Longrightarrow> size_inv (root (snd (autoPrune_check opts c now)))"
  using size_inv_prune [of c opts now]
  by (auto simp: autoPrune_check_def split: prod.splits sum.splits)

lemma size_inv_insertOne:
  "size_inv (root c) \<Longrightarrow> size_inv (root (snd (insertOne opts sizeof c key val replace now)))"
proof -
  assume inv: "size_inv (root c)"
  obtain res r' where ins: "insertImpl sizeof (root c) key val now replace = (res, r')"
    by (cases "insertImpl sizeof (root c) key val now replace")
  have "size_inv (root (c\<lparr>root := r'\<rparr>))"
    using size_inv_insertImpl [OF inv ins] by simp
  from size_inv_autoPrune_check [OF this, of opts now] show ?thesis
    by (auto simp: insertOne_def ins split: prod.splits option.splits)
qed

lemma size_inv_insertMany_loop:
  "size_inv r \<Longrightarrow> insertMany_loop sizeof r vals replace now tot = (res, r') \<Longrightarrow> size_inv r'"
proof (induction vals arbitrary: r tot)
  case Nil
  then show ?case by simp
next
  case (Cons kv rest)
  obtain key val where kv: "kv = (key, val)"
    by (cases kv)
  obtain x r1 where ins: "insertImpl sizeof r key val now replace = (x, r1)"
    by (cases "insertImpl sizeof r key val now replace")
  have r1: "size_inv r1"
    using size_inv_insertImpl [OF Cons.prems(1) ins] by simp
  show ?case
  proof (cases x)
    case (Inl e)
    with Cons.prems(2) kv ins r1 show ?thesis by simp
  next
    case (Inr y)
    with Cons.prems(2) kv ins Cons.IH [OF r1] show ?thesis
      by (auto split: prod.splits)
  qed
qed

lemma size_inv_insertMany:
  "size_inv (root c) \<Longrightarrow> size_inv (root (snd (insertMany opts sizeof c vals replace now)))"
proof -
  assume inv: "size_inv (root c)"
  obtain res r' where loop: "insertMany_loop sizeof (root c) vals replace now 0 = (res, r')"
    by (cases "insertMany_loop sizeof (root c) vals replace now 0")
  have "size_inv (root (c\<lparr>root := r'\<rparr>))"
    using size_inv_insertMany_loop [OF inv loop] by simp
  from this size_inv_autoPrune_check [OF this, of opts now] show ?thesis
    by (auto simp: insertMany_def loop split: prod.splits option.splits sum.splits)
qed

lemma size_inv_get:
  "size_inv (root c) \<Longrightarrow> size_inv (root (snd (get c key u now)))"
proof -
  assume inv: "size_inv (root c)"
  obtain res r' where g: "getImpl now (root c) key u = (res, r')"
    by (cases "getImpl now (root c) key u")
  from size_inv_getImpl [OF inv g] show ?thesis
    by (simp add: get_def partial_get_def rootPartial_def g)
qed

lemma size_inv_ensure:
  "size_inv (root c) \<Longrightarrow> size_inv (root (snd (ensure opts sizeof nullish c key val now)))"
proof -
  assume inv: "size_inv (root c)"
  obtain res c1 where g: "get c key False now = (res, c1)"
    by (cases "get c key False now")
  have c1: "size_inv (root c1)"
    using size_inv_get [OF inv, of key False now] g by simp
  from c1 size_inv_insertOne [OF c1, of opts sizeof key val False now] show ?thesis
    by (auto simp: ensure_def g split: sum.splits option.splits prod.splits)
qed

lemma size_inv_deleteOne:
  "size_inv (root c) \<Longrightarrow> size_inv (root (snd (deleteOne c key)))"
proof -
  assume inv: "size_inv (root c)"
  obtain res r' where d: "deleteImpl (root c) key = (res, r')"
    by (cases "deleteImpl (root c) key")
  from size_inv_deleteImpl [OF inv d] show ?thesis
    by (auto simp: deleteOne_def d split: sum.splits)
qed

lemma size_inv_deleteMany:
  "size_inv (root c) \<Longrightarrow> size_inv (root (snd (deleteMany c ks)))"
proof (induction ks arbitrary: c)
  case Nil
  then show ?case by simp
next
  case (Cons key ks)
  obtain e c' where d: "deleteOne c key = (e, c')"
    by (cases "deleteOne c key")
  have "size_inv (root c')"
    using size_inv_deleteOne [OF Cons.prems, of key] d by simp
  from this Cons.IH [OF this] show ?case
    by (auto simp: d split: option.splits)
qed

lemma size_inv_clear: "size_inv (root c) \<Longrightarrow> size_inv (root (clear c))"
  by (auto simp: clear_def split: node.splits)

lemma size_inv_step: "size_inv (root c) \<Longrightarrow> size_inv (root (step opts sizeof nullish c call))"
  by (cases call)
    (simp_all add: size_inv_insertOne size_inv_insertMany size_inv_ensure size_inv_deleteOne
      size_inv_deleteMany size_inv_clear size_inv_prune size_inv_get)

lemma size_inv_run: "size_inv (root c) \<Longrightarrow> size_inv (root (run opts sizeof nullish c calls))"
  unfolding run_def by (induction calls arbitrary: c) (simp_all add: size_inv_step)

lemma size_inv_new_cache: "size_inv (root (new_cache opts sizeof vals now))"
  unfolding new_cache_def by (rule size_inv_insertMany) (simp add: empty_cache_def)

text \<open>
  Claim C1. In every state that a sequence of public calls reaches from a freshly constructed
  cache (with any options, any initial values and any size estimator), every Branch of the
  trie has the sum of its children's sizes as its aggregate size, and no size is negative.
  The calls are those of \<open>call\<close>: \<^verbatim>\<open>insertOne\<close>, \<^verbatim>\<open>insertMany\<close>, \<^verbatim>\<open>ensure\<close>,
  \<^verbatim>\<open>deleteOne\<close>, \<^verbatim>\<open>deleteMany\<close>, \<^verbatim>\<open>clear\<close>, \<^verbatim>\<open>prune\<close> and also \<^verbatim>\<open>get\<close>.
\<close>

theorem aggregate_size_invariant:
  "size_inv (root (run opts sizeof nullish (new_cache opts sizeof vals t0) calls))"
proof -
  have "size_inv (root (new_cache opts sizeof vals t0))"
    by (rule size_inv_new_cache)
  then show ?thesis
    by (rule size_inv_run)
qed

theorem aggregate_size_invariant_witness:
  "size_inv (root (run example_options (\<lambda>v. v) (\<lambda>v. False) (new_cache example_options (\<lambda>v. v) [] 0)
     (example_calls 0 1 2 3 4 @ [Prune 5, DeleteOne [1, 2], Clear])))"
  using aggregate_size_invariant
    [of example_options "\<lambda>v. v" "\<lambda>v. False" "[]" 0
        "example_calls 0 1 2 3 4 @ [Prune 5, DeleteOne [1, 2], Clear]"] .

subsection \<open>The example with \<^verbatim>\<open>pruneDepth: 1\<close>\<close>

lemma example_cache_eq:
  "example_cache t0 t1 t2 t3 t4 =
     \<lparr>root = Branch
        [(1, Branch [(1, Leaf 30 t0 30), (2, Leaf 30 t3 30), (3, Leaf 30 t4 30)] t4 90 3),
         (2, Branch [(1, Leaf 30 t1 30), (2, Leaf 30 t2 30)] t2 60 2)] t4 150 5,
      lastPruneAt = t0\<rparr>"
  by (simp add: example_cache_def example_calls_def example_options_def run_def empty_cache_def
      insertOne_def autoPrune_check_def shouldAutoPrune_def)

text \<open>
  Claim C5. After the five inserts the cache holds 150 bytes. With \<^verbatim>\<open>pruneDepth: 1\<close> the
  units of \<^verbatim>\<open>prune()\<close> are the subtree at key 1 (size 90, access time \<open>t4\<close>) and the subtree
  at key 2 (size 60, access time \<open>t2\<close>); when \<open>t2\<close> is earlier than \<open>t4\<close>, the call evicts
  exactly the subtree at key 2, the subtree at key 1 is the very node it was, and the keys
  left are (1,1), (1,2), (1,3).
\<close>

theorem prune_depth_1_example:
  assumes "t2 < t4"
  shows "cache_size (example_cache t0 t1 t2 t3 t4) = 150
    \<and> flatten (Some 1) (root (example_cache t0 t1 t2 t3 t4)) [] =
        [([1], Children [(1, Leaf 30 t0 30), (2, Leaf 30 t3 30), (3, Leaf 30 t4 30)], t4, 90),
         ([2], Children [(1, Leaf 30 t1 30), (2, Leaf 30 t2 30)], t2, 60)]
    \<and> fst (prune example_options (example_cache t0 t1 t2 t3 t4) now) =
        Inr [([2], Children [(1, Leaf 30 t1 30), (2, Leaf 30 t2 30)], 60)]
    \<and> node_at (root (snd (prune example_options (example_cache t0 t1 t2 t3 t4) now))) [1] =
        node_at (root (example_cache t0 t1 t2 t3 t4)) [1]
    \<and> node_at (root (snd (prune example_options (example_cache t0 t1 t2 t3 t4) now))) [2] = Inr None
    \<and> keys (snd (prune example_options (example_cache t0 t1 t2 t3 t4) now)) =
        [[1, 1], [1, 2], [1, 3]]"
  using assms
  by (simp add: example_cache_eq prune_def cache_size_def keys_def example_options_def)

theorem prune_depth_1_example_witness:
  "(2::int) < 4
    \<and> cache_size (example_cache 0 1 2 3 4) = 150
    \<and> fst (prune example_options (example_cache 0 1 2 3 4) 5) =
        Inr [([2], Children [(1, Leaf 30 1 30), (2, Leaf 30 2 30)], 60)]
    \<and> keys (snd (prune example_options (example_cache 0 1 2 3 4) 5)) = [[1, 1], [1, 2], [1, 3]]"
proof -
  have lt: "(2::int) < 4" by simp
  show ?thesis using lt prune_depth_1_example [OF lt, of 0 1 3 5] by simp
qed

subsection \<open>\<^verbatim>\<open>clear()\<close> and the leaf count\<close>

text \<open>
  Claim C6. \<^verbatim>\<open>clear()\<close> empties the child map of the root and sets its size to 0, and
  leaves its leaf count as it was: after one insert into a fresh cache without capacity and
  a \<^verbatim>\<open>clear()\<close>, the cache has no key and size 0, and \<^verbatim>\<open>count\<close> is 1.
\<close>

theorem clear_keeps_count:
  "count (clear (snd (insertOne unbounded sizeof (empty_cache t0) [k] v True t1))) = 1
    \<and> cache_size (clear (snd (insertOne unbounded sizeof (empty_cache t0) [k] v True t1))) = 0
    \<and> keys (clear (snd (insertOne unbounded sizeof (empty_cache t0) [k] v True t1))) = []"
  by (simp add: count_def partial_count_def rootPartial_def clear_def insertOne_def Let_def
      autoPrune_check_def shouldAutoPrune_def unbounded_def empty_cache_def cache_size_def keys_def)

text \<open>
  Claim C2. The same run breaks the count invariant: the root is a Branch without Leaf
  descendants whose aggregate leaf count is 1.
\<close>

theorem count_inv_broken_by_clear:
  "\<not> count_inv (root (run unbounded sizeof nullish (empty_cache t0) [InsertOne [k] v True t1, Clear]))
    \<and> leaves (root (run unbounded sizeof nullish (empty_cache t0) [InsertOne [k] v True t1, Clear])) = 0
    \<and> count (run unbounded sizeof nullish (empty_cache t0) [InsertOne [k] v True t1, Clear]) = 1"
  by (simp add: run_def count_def partial_count_def rootPartial_def clear_def insertOne_def Let_def
      autoPrune_check_def shouldAutoPrune_def unbounded_def empty_cache_def)

subsection \<open>The partial view\<close>

lemma view_cache_eq:
  "view_cache = \<lparr>root = Branch [(1, Branch [(2, Leaf 40 1 40)] 1 40 1)] 1 40 1, lastPruneAt = 0\<rparr>"
  by (simp add: view_cache_def insertOne_def autoPrune_check_def shouldAutoPrune_def unbounded_def
      empty_cache_def)

text \<open>
  Claim C9. The view at the prefix (1) of a cache that holds 40 under (1, 2): \<^verbatim>\<open>get\<close> with
  the suffix (2) finds the value, but \<^verbatim>\<open>sizeof\<close> and \<^verbatim>\<open>atime\<close> with the suffix (2) walk
  the key (1, 2) from the view's own Branch and find nothing, where the cache answers 40 and
  the time 1 for (1, 2); and \<^verbatim>\<open>insertMany\<close> on the view stores an entry with key (3) under
  (3), not under (1, 3).
\<close>

theorem partial_view_diverges:
  "partial view_cache [1] = Inr (Some view_example)
    \<and> fst (partial_get view_example [2] False 2) = Inr (Some 40)
    \<and> partial_sizeof view_example [2] = Inr None
    \<and> cache_sizeof view_cache [1, 2] = Inr (Some 40)
    \<and> partial_atime view_example [2] = Inr None
    \<and> atime view_cache [1, 2] = Inr (Some 1)
    \<and> keys (snd (partial_insertMany unbounded (\<lambda>v. v) view_cache view_example [([3], 50)] True 2)) =
        [[1, 2], [3]]
    \<and> keys (snd (insertMany unbounded (\<lambda>v. v) view_cache [([1, 3], 50)] True 2)) =
        [[1, 2], [1, 3]]"
  by (simp add: view_cache_eq view_example_def partial_def partial_get_def partial_sizeof_def
      cache_sizeof_def partial_atime_def atime_def rootPartial_def partial_insertMany_def
      insertMany_def autoPrune_check_def shouldAutoPrune_def unbounded_def keys_def Let_def)

subsection \<open>Eviction with \<^verbatim>\<open>pruneDepth: 0\<close>\<close>

text \<open>
  Claim C4. With capacity 100 and \<^verbatim>\<open>pruneDepth: 0\<close> the only unit is the root with the
  empty key, and \<^verbatim>\<open>deleteImpl\<close> does nothing for the empty key: a cache holding one value
  of size 150 still holds 150 bytes after \<^verbatim>\<open>prune()\<close>, and the root is reported as evicted.
\<close>

theorem prune_depth_0_evicts_nothing:
  "cache_size (run depth0_options (\<lambda>v. v) (\<lambda>v. False) (empty_cache 0) [InsertOne [1::nat] (150::nat) True 1]) = 150
    \<and> prune depth0_options
          (run depth0_options (\<lambda>v. v) (\<lambda>v. False) (empty_cache 0) [InsertOne [1::nat] (150::nat) True 1]) 2 =
        (Inr [([], Children [(1, Leaf 150 1 150)], 150)],
         \<lparr>root = Branch [(1, Leaf 150 1 150)] 1 150 1, lastPruneAt = 2\<rparr>)
    \<and> cache_size (snd (prune depth0_options
          (run depth0_options (\<lambda>v. v) (\<lambda>v. False) (empty_cache 0) [InsertOne [1::nat] (150::nat) True 1]) 2)) = 150"
  by (simp add: run_def insertOne_def autoPrune_check_def shouldAutoPrune_def prune_def
      depth0_options_def empty_cache_def cache_size_def)

subsection \<open>Walking a key: \<^verbatim>\<open>getImpl\<close>, \<^verbatim>\<open>insertImpl\<close>, \<^verbatim>\<open>deleteImpl\<close> and \<^verbatim>\<open>node\<close>\<close>

lemma node_at_touch: "key \<noteq> [] \<Longrightarrow> node_at (touch now node) key = node_at node key"
  by (cases node; cases key) auto

lemma fst_getImpl:
  "fst (getImpl now node key u) =
     (case node_at node key of
        Inl e \<Rightarrow> Inl e
      | Inr None \<Rightarrow> Inr None
      | Inr (Some n) \<Rightarrow> Inr (Some (if u then touch now n else n)))"
proof (induction key arbitrary: node)
  case Nil
  show ?case by (simp add: Let_def)
next
  case (Cons head tail)
  show ?case
  proof (cases node)
    case (Leaf v a s)
    then show ?thesis by (simp add: Let_def)
  next
    case (Branch cs a s n)
    show ?thesis
    proof (cases "map_get cs head")
      case None
      with Branch show ?thesis by (simp add: Let_def)
    next
      case (Some child)
      obtain r child' where rec: "getImpl now child tail u = (r, child')"
        by (cases "getImpl now child tail u")
      from Cons.IH [of child] rec Branch Some show ?thesis
        by (cases u) (simp_all add: Let_def)
    qed
  qed
qed



lemma snd_getImpl_child:
  "map_get cs head = Some child \<Longrightarrow>
     snd (getImpl now (Branch cs a s n) (head # tail) u) =
       Branch (map_set cs head (snd (getImpl now child tail u))) (if u then now else a) s n"
  by (simp add: Let_def split: prod.splits)

lemma snd_getImpl_no_child:
  "map_get cs head = None \<Longrightarrow>
     snd (getImpl now (Branch cs a s n) (head # tail) u) = Branch cs (if u then now else a) s n"
  by (simp add: Let_def)

lemma snd_getImpl_Leaf:
  "snd (getImpl now (Leaf v a s) key u) = Leaf v (if u then now else a) s"
  by (cases key) (simp_all add: Let_def)


lemma map_set_twice: "map_set (map_set cs k x) k y = map_set cs k y"
  by (induction cs) auto

lemma insertImpl_Leaf:
  "key \<noteq> [] \<Longrightarrow> insertImpl sizeof (Leaf v0 a s) key val date replace = (Inl TypeError, Leaf v0 a s)"
  by (cases key; cases "tl key") auto

lemma insertImpl_step:
  "insertImpl sizeof (Branch cs a s n) (head # t # ts) val date replace =
     (case insertImpl sizeof (child_or_new cs head date) (t # ts) val date replace of
        (Inl e, child') \<Rightarrow> (Inl e, Branch (map_set cs head child') a s n)
      | (Inr (sz, diff, inserted), child') \<Rightarrow>
          (Inr (sz, diff, inserted),
           Branch (map_set cs head child') date (s + diff) (n + (if inserted then 1 else 0))))"
  by (simp add: child_or_new_def map_set_twice split: option.splits prod.splits sum.splits)

lemma node_at_child_or_new:
  "q \<noteq> [] \<Longrightarrow> node_at (child_or_new cs head date) q = node_at (Branch cs a s n) (head # q)"
  by (cases q) (auto simp: child_or_new_def split: option.splits)


lemma insertImpl_stores:
  "key \<noteq> [] \<Longrightarrow> node_at b key \<noteq> Inl TypeError \<Longrightarrow>
     node_at (snd (insertImpl sizeof b key val date True)) key =
       Inr (Some (Leaf val date (int (sizeof val))))"
proof (induction key arbitrary: b)
  case Nil
  then show ?case by simp
next
  case (Cons head tail)
  from Cons.prems(2) obtain cs a s n where b: "b = Branch cs a s n"
    by (cases b) auto
  show ?case
  proof (cases tail)
    case Nil
    then show ?thesis by (simp add: b Let_def map_get_set_same)
  next
    case (Cons t ts)
    have sub: "node_at (child_or_new cs head date) tail = node_at b (head # tail)"
      unfolding b by (rule node_at_child_or_new) (simp add: Cons)
    have "node_at (snd (insertImpl sizeof (child_or_new cs head date) tail val date True)) tail =
        Inr (Some (Leaf val date (int (sizeof val))))"
      using Cons.IH [of "child_or_new cs head date"] Cons.prems(2) sub Cons by simp
    then show ?thesis
      unfolding b Cons insertImpl_step
      by (auto simp: map_get_set_same split: prod.splits sum.splits)
  qed
qed



lemma forget_atime_map_set:
  "map_get cs k = Some x \<Longrightarrow> forget_atime y = forget_atime x \<Longrightarrow>
     map (\<lambda>child. (fst child, forget_atime (snd child))) (map_set cs k y) =
     map (\<lambda>child. (fst child, forget_atime (snd child))) cs"
  by (induction cs) (auto split: if_splits)

lemma insertImpl_keep:
  "key \<noteq> [] \<Longrightarrow> node_at b key = Inr (Some (Leaf v0 a0 s0)) \<Longrightarrow>
     fst (insertImpl sizeof b key val date False) = Inr (None, 0, False)
     \<and> forget_atime (snd (insertImpl sizeof b key val date False)) = forget_atime b
     \<and> size_of (snd (insertImpl sizeof b key val date False)) = size_of b
     \<and> node_at (snd (insertImpl sizeof b key val date False)) key = Inr (Some (Leaf v0 a0 s0))"
proof (induction key arbitrary: b)
  case Nil
  then show ?case by simp
next
  case (Cons head tail)
  from Cons.prems(2) obtain cs a s n child where b: "b = Branch cs a s n"
    and child: "map_get cs head = Some child" and sub: "node_at child tail = Inr (Some (Leaf v0 a0 s0))"
    by (cases b) (auto split: option.splits)
  show ?case
  proof (cases tail)
    case Nil
    with child sub show ?thesis by (simp add: b Let_def)
  next
    case tl: (Cons t ts)
    have con: "child_or_new cs head date = child"
      by (simp add: child_or_new_def child)
    from Cons.IH [OF _ sub] tl child show ?thesis
      unfolding b tl insertImpl_step con
      by (auto simp: forget_atime_map_set map_get_set_same split: prod.splits sum.splits)
  qed
qed

lemma deleteImpl_Leaf:
  "key \<noteq> [] \<Longrightarrow> deleteImpl (Leaf v0 a s) key = (Inl TypeError, Leaf v0 a s)"
  by (cases key; cases "tl key") auto

lemma deleteImpl_step:
  "map_get cs head = Some child \<Longrightarrow>
   deleteImpl (Branch cs a s n) (head # t # ts) =
     (case deleteImpl child (t # ts) of
        (Inl e, child') \<Rightarrow> (Inl e, Branch (map_set cs head child') a s n)
      | (Inr None, child') \<Rightarrow> (Inr None, Branch (map_set cs head child') a s n)
      | (Inr (Some deleted), child') \<Rightarrow>
          (Inr (Some deleted),
           Branch (map_set cs head child') a (s - size_of deleted)
             (n - (if isBranch deleted then count_of deleted else 1))))"
  by simp

lemma deleteImpl_no_child:
  "map_get cs head = None \<Longrightarrow> deleteImpl (Branch cs a s n) (head # tail) = (Inr None, Branch cs a s n)"
  by (cases tail) simp_all

lemma map_get_delete_same: "map_get (map_delete cs k) k = None"
  by (induction cs) auto

lemma map_get_delete_other: "k' \<noteq> k \<Longrightarrow> map_get (map_delete cs k) k' = map_get cs k'"
  by (induction cs) auto

lemma atime_of_deleteImpl: "atime_of (snd (deleteImpl b key)) = atime_of b"
proof (cases b)
  case (Leaf v0 a s)
  then show ?thesis by (cases key) (simp_all add: deleteImpl_Leaf)
next
  case (Branch cs a s n)
  then show ?thesis
    by (cases "(b, key)" rule: deleteImpl.cases)
      (auto split: option.splits prod.splits sum.splits)
qed

lemma deleteImpl_removes:
  "key \<noteq> [] \<Longrightarrow> node_at b key \<noteq> Inl TypeError \<Longrightarrow>
     node_at (snd (deleteImpl b key)) key = Inr None"
proof (induction key arbitrary: b)
  case Nil
  then show ?case by simp
next
  case (Cons head tail)
  from Cons.prems(2) obtain cs a s n where b: "b = Branch cs a s n"
    by (cases b) auto
  show ?case
  proof (cases "map_get cs head")
    case None
    then show ?thesis by (simp add: b deleteImpl_no_child del: deleteImpl.simps)
  next
    case (Some child)
    show ?thesis
    proof (cases tail)
      case Nil
      with Some show ?thesis by (simp add: b map_get_delete_same)
    next
      case tl: (Cons t ts)
      from Cons.prems(2) Some have "node_at child tail \<noteq> Inl TypeError"
        by (simp add: b)
      from Cons.IH [OF _ this] tl have "node_at (snd (deleteImpl child (t # ts))) (t # ts) = Inr None"
        by simp
      then show ?thesis
        unfolding b tl deleteImpl_step [OF Some]
        by (auto simp: map_get_set_same split: prod.splits sum.splits option.splits)
    qed
  qed
qed

lemma isLeaf_deleteImpl: "isLeaf (snd (deleteImpl b key)) = isLeaf b"
proof (cases b)
  case (Leaf v0 a s)
  then show ?thesis by (cases key) (simp_all add: deleteImpl_Leaf)
next
  case (Branch cs a s n)
  then show ?thesis
    by (cases "(b, key)" rule: deleteImpl.cases)
      (auto split: option.splits prod.splits sum.splits)
qed

lemma deleteImpl_node_at:
  "case node_at (snd (deleteImpl b key)) q of
     Inl e \<Rightarrow> node_at b q = Inl e
   | Inr None \<Rightarrow> True
   | Inr (Some n') \<Rightarrow>
       (\<exists>n. node_at b q = Inr (Some n) \<and> atime_of n = atime_of n' \<and> isLeaf n = isLeaf n')"
proof (induction key arbitrary: b q)
  case Nil
  show ?case by (auto split: sum.splits option.splits)
next
  case (Cons head tail)
  show ?case
  proof (cases q)
    case Nil
    then show ?thesis
      using atime_of_deleteImpl [of b "head # tail"] isLeaf_deleteImpl [of b "head # tail"] by simp
  next
    case q: (Cons h' t')
    show ?thesis
    proof (cases b)
      case (Leaf v0 a s)
      then show ?thesis
        by (auto simp: deleteImpl_Leaf split: sum.splits option.splits)
    next
      case b: (Branch cs a s n)
      show ?thesis
      proof (cases "map_get cs head")
        case None
        then show ?thesis
          by (auto simp: b deleteImpl_no_child simp del: deleteImpl.simps split: sum.splits option.splits)
      next
        case (Some child)
        show ?thesis
        proof (cases tail)
          case Nil
          with Some show ?thesis
            by (cases "h' = head")
              (auto simp: b q map_get_delete_same map_get_delete_other split: sum.splits option.splits)
        next
          case tl: (Cons t ts)
          have snd_eq: "node_at (snd (deleteImpl b (head # tail))) q =
              (if h' = head then node_at (snd (deleteImpl child tail)) t' else node_at b q)"
            unfolding b tl deleteImpl_step [OF Some]
            by (auto simp: q map_get_set_same map_get_set_other Some
                split: prod.splits sum.splits option.splits)
          show ?thesis
          proof (cases "h' = head")
            case True
            have eq: "node_at b q = node_at child t'"
              by (simp add: b q True Some)
            show ?thesis
              unfolding snd_eq eq using True Cons.IH [of child t'] by simp
          next
            case False
            with snd_eq show ?thesis
              by (auto split: sum.splits option.splits)
          qed
        qed
      qed
    qed
  qed
qed

lemma deleteImpl_remaining:
  "node_at (snd (deleteImpl b key)) q = Inr (Some n') \<Longrightarrow>
     \<exists>n. node_at b q = Inr (Some n) \<and> atime_of n = atime_of n' \<and> isLeaf n = isLeaf n'"
  using deleteImpl_node_at [where b = b and key = key and q = q] by simp

lemma deleteImpl_error_before:
  "node_at (snd (deleteImpl b key)) q = Inl TypeError \<Longrightarrow> node_at b q = Inl TypeError"
  using deleteImpl_node_at [where b = b and key = key and q = q] by simp



lemma debounced_cache_eq:
  "debounced_cache = \<lparr>root = Branch [(1, Leaf 60 1 60), (2, Leaf 70 2 70)] 2 130 2, lastPruneAt = 0\<rparr>"
  by (simp add: debounced_cache_def debounced_options_def run_def insertOne_def autoPrune_check_def
      shouldAutoPrune_def empty_cache_def cache_size_def)

lemmas cache_ops =
  get_def partial_get_def rootPartial_def insertOne_def autoPrune_check_def deleteOne_def
  cache_sizeof_def partial_sizeof_def atime_def partial_atime_def count_def partial_count_def
  cache_size_def

lemma get_eq:
  "fst (get c key u now) =
     (case node_at (root c) key of
        Inl e \<Rightarrow> Inl e
      | Inr None \<Rightarrow> Inr None
      | Inr (Some (Leaf v a s)) \<Rightarrow> Inr (Some v)
      | Inr (Some (Branch cs a s n)) \<Rightarrow> Inr None)"
proof -
  have "fst (get c key u now) =
      (case fst (getImpl now (root c) key u) of
         Inl e \<Rightarrow> Inl e
       | Inr None \<Rightarrow> Inr None
       | Inr (Some node) \<Rightarrow> (case node of Leaf v a s \<Rightarrow> Inr (Some v) | Branch cs a s n \<Rightarrow> Inr None))"
    by (simp add: get_def partial_get_def rootPartial_def split: prod.splits)
  then show ?thesis
    unfolding fst_getImpl
    by (auto split: sum.splits option.splits node.splits)
qed

lemma insertImpl_result:
  "key \<noteq> [] \<Longrightarrow> node_at b key \<noteq> Inl TypeError \<Longrightarrow>
     \<exists>diff inserted. fst (insertImpl sizeof b key val date True) = Inr (Some (int (sizeof val)), diff, inserted)"
proof (induction key arbitrary: b)
  case Nil
  then show ?case by simp
next
  case (Cons head tail)
  from Cons.prems(2) obtain cs a s n where b: "b = Branch cs a s n"
    by (cases b) auto
  show ?case
  proof (cases tail)
    case Nil
    then show ?thesis by (simp add: b Let_def)
  next
    case (Cons t ts)
    have sub: "node_at (child_or_new cs head date) tail = node_at b (head # tail)"
      unfolding b by (rule node_at_child_or_new) (simp add: Cons)
    from Cons.IH [of "child_or_new cs head date"] Cons.prems(2) sub Cons
    obtain diff inserted where
      "fst (insertImpl sizeof (child_or_new cs head date) tail val date True) =
         Inr (Some (int (sizeof val)), diff, inserted)"
      by auto
    then show ?thesis
      unfolding b Cons insertImpl_step
      by (auto split: prod.splits sum.splits)
  qed
qed

lemma deleteImpl_no_error:
  "node_at b key \<noteq> Inl TypeError \<Longrightarrow> \<exists>d. fst (deleteImpl b key) = Inr d"
proof (induction key arbitrary: b)
  case Nil
  then show ?case by simp
next
  case (Cons head tail)
  from Cons.prems obtain cs a s n where b: "b = Branch cs a s n"
    by (cases b) auto
  show ?case
  proof (cases "map_get cs head")
    case None
    then show ?thesis by (simp add: b deleteImpl_no_child del: deleteImpl.simps)
  next
    case (Some child)
    show ?thesis
    proof (cases tail)
      case Nil
      with Some show ?thesis by (simp add: b)
    next
      case tl: (Cons t ts)
      from Cons.prems Some have "node_at child tail \<noteq> Inl TypeError"
        by (simp add: b)
      from Cons.IH [OF this] tl obtain d where "fst (deleteImpl child (t # ts)) = Inr d"
        by auto
      then show ?thesis
        unfolding b tl deleteImpl_step [OF Some]
        by (auto split: prod.splits sum.splits option.splits)
    qed
  qed
qed

subsection \<open>Access timestamps\<close>

lemma atime_eq:
  "atime c q =
     (case node_at (root c) q of
        Inl e \<Rightarrow> Inl e
      | Inr None \<Rightarrow> Inr None
      | Inr (Some n) \<Rightarrow> Inr (Some (atime_of n)))"
  by (simp add: atime_def partial_atime_def rootPartial_def)


lemma root_get: "root (snd (get c key u now)) = snd (getImpl now (root c) key u)"
  by (simp add: get_def partial_get_def rootPartial_def split: prod.splits)

lemma getImpl_no_touch: "snd (getImpl now node key False) = node"
proof (induction key arbitrary: node)
  case Nil
  show ?case by simp
next
  case (Cons head tail)
  show ?case
  proof (cases node)
    case (Leaf v a s)
    then show ?thesis by (simp add: snd_getImpl_Leaf del: getImpl.simps)
  next
    case (Branch cs a s n)
    show ?thesis
    proof (cases "map_get cs head")
      case None
      with Branch show ?thesis by (simp add: snd_getImpl_no_child del: getImpl.simps)
    next
      case (Some child)
      with Branch Cons.IH [of child] show ?thesis
        by (simp add: snd_getImpl_child map_set_same_value del: getImpl.simps)
    qed
  qed
qed

lemma get_no_touch: "snd (get c key False now) = c"
proof -
  obtain res r' where g: "getImpl now (root c) key False = (res, r')"
    by (cases "getImpl now (root c) key False")
  with getImpl_no_touch [of now "root c" key] have "r' = root c" by simp
  with g show ?thesis
    by (simp add: get_def partial_get_def rootPartial_def)
qed



lemma snd_insertOne:
  "snd (insertOne opts sizeof c key v replace now) =
     snd (autoPrune_check opts (c\<lparr>root := snd (insertImpl sizeof (root c) key v now replace)\<rparr>) now)"
  by (simp add: insertOne_def split: prod.splits option.splits)









lemma snd_ensure:
  "snd (ensure opts sizeof nullish c key v now) =
     (case fst (get c key False now) of
        Inl e \<Rightarrow> c
      | Inr None \<Rightarrow> snd (insertOne opts sizeof c key v False now)
      | Inr (Some existing) \<Rightarrow>
          if nullish existing then snd (insertOne opts sizeof c key v False now) else c)"
proof -
  obtain res c1 where g: "get c key False now = (res, c1)"
    by (cases "get c key False now")
  with get_no_touch [of c key now] have c1: "c1 = c" by simp
  show ?thesis
    by (simp add: ensure_def g c1 split: sum.splits option.splits prod.splits)
qed








lemma root_insertMany:
  "\<exists>c1. root c1 = snd (insertMany_loop sizeof (root c) vals replace now 0)
     \<and> (snd (insertMany opts sizeof c vals replace now) = c1
        \<or> snd (insertMany opts sizeof c vals replace now) = snd (autoPrune_check opts c1 now))"
proof -
  obtain res r' where loop: "insertMany_loop sizeof (root c) vals replace now 0 = (res, r')"
    by (cases "insertMany_loop sizeof (root c) vals replace now 0")
  show ?thesis
    by (rule exI [of _ "c\<lparr>root := r'\<rparr>"])
      (auto simp: insertMany_def loop split: sum.splits prod.splits option.splits)
qed




subsection \<open>Eviction down to the capacity\<close>

lemma map_get_distinct:
  "distinct (map fst cs) \<Longrightarrow> map_get cs k = Some x \<longleftrightarrow> (k, x) \<in> set cs"
  by (induction cs) (auto simp: rev_image_eqI split: if_splits)

lemma size_inv_children:
  "size_inv (Branch cs a s n) \<Longrightarrow> (k, x) \<in> set cs \<Longrightarrow> size_inv x"
  by (auto simp: list_all_iff)

lemma flatten_keys:
  "size_inv r \<Longrightarrow> fst ` set (flatten pd r pre) = {pre @ k | k. prune_unit pd (length pre) r k}"
proof (induction pd r pre rule: flatten.induct)
  case (1 depth v a s pre)
  have "prune_unit depth (length pre) (Leaf v a s) k \<longleftrightarrow> k = []" for k
    by (cases k) (auto simp: prune_unit_def split: option.splits)
  then show ?case by auto
next
  case (2 depth cs a s n pre)
  show ?case
  proof (cases "case depth of None \<Rightarrow> False | Some d \<Rightarrow> d \<le> length pre")
    case True
    then obtain d where d: "depth = Some d" "d \<le> length pre"
      by (auto split: option.splits)
    have "prune_unit depth (length pre) (Branch cs a s n) k \<longleftrightarrow> k = []" for k
    proof (cases k)
      case Nil
      with d show ?thesis by (simp add: prune_unit_def)
    next
      case (Cons h t)
      with d show ?thesis
        by (auto simp: prune_unit_def split: option.splits sum.splits)
    qed
    with True show ?thesis by simp
  next
    case False
    have dist: "distinct (map fst cs)"
      using "2.prems" by simp
    have IH: "fst ` set (flatten depth x (pre @ [h])) = {(pre @ [h]) @ k | k. prune_unit depth (Suc (length pre)) x k}"
      if "(h, x) \<in> set cs" for h x
      using "2.IH" [OF False that] size_inv_children [OF "2.prems" that] by simp
    have unit_cons: "prune_unit depth (length pre) (Branch cs a s n) (h # t) \<longleftrightarrow>
        (\<exists>x. (h, x) \<in> set cs \<and> prune_unit depth (Suc (length pre)) x t)" for h t
    proof (cases "map_get cs h")
      case None
      then show ?thesis
        using map_get_distinct [OF dist, of h] by (auto simp: prune_unit_def)
    next
      case (Some x)
      have "(h, y) \<in> set cs \<longleftrightarrow> y = x" for y
        using map_get_distinct [OF dist, of h y] Some by auto
      moreover have "prune_unit depth (length pre) (Branch cs a s n) (h # t) \<longleftrightarrow> prune_unit depth (Suc (length pre)) x t"
        using Some False
        by (auto simp: prune_unit_def split: option.splits sum.splits)
      ultimately show ?thesis by auto
    qed
    have unit_nil: "\<not> prune_unit depth (length pre) (Branch cs a s n) []"
      using False by (auto simp: prune_unit_def split: option.splits)
    have "fst ` set (flatten depth (Branch cs a s n) pre) =
        (\<Union>child \<in> set cs. fst ` set (flatten depth (snd child) (pre @ [fst child])))"
      using False by auto
    also have "\<dots> = (\<Union>child \<in> set cs. {(pre @ [fst child]) @ k | k. prune_unit depth (Suc (length pre)) (snd child) k})"
    proof (intro SUP_cong refl)
      fix child
      assume "child \<in> set cs"
      then have "(fst child, snd child) \<in> set cs" by simp
      from IH [OF this]
      show "fst ` set (flatten depth (snd child) (pre @ [fst child])) =
          {(pre @ [fst child]) @ k | k. prune_unit depth (Suc (length pre)) (snd child) k}" .
    qed
    also have "\<dots> = {pre @ k | k. prune_unit depth (length pre) (Branch cs a s n) k}"
    proof (intro set_eqI iffI)
      fix key
      assume "key \<in> (\<Union>child \<in> set cs. {(pre @ [fst child]) @ k | k. prune_unit depth (Suc (length pre)) (snd child) k})"
      then obtain h x k where "(h, x) \<in> set cs" "key = pre @ h # k" "prune_unit depth (Suc (length pre)) x k"
        by auto
      with unit_cons [of h k] show "key \<in> {pre @ k | k. prune_unit depth (length pre) (Branch cs a s n) k}"
        by auto
    next
      fix key
      assume "key \<in> {pre @ k | k. prune_unit depth (length pre) (Branch cs a s n) k}"
      then obtain k where k: "key = pre @ k" "prune_unit depth (length pre) (Branch cs a s n) k"
        by auto
      with unit_nil obtain h t where "k = h # t"
        by (cases k) auto
      with k unit_cons [of h t] obtain x where "(h, x) \<in> set cs" "prune_unit depth (Suc (length pre)) x t"
        by auto
      with k \<open>k = h # t\<close>
      show "key \<in> (\<Union>child \<in> set cs. {(pre @ [fst child]) @ k | k. prune_unit depth (Suc (length pre)) (snd child) k})"
        by force
    qed
    finally show ?thesis .
  qed
qed

lemma flatten_empty_size:
  "size_inv r \<Longrightarrow> flatten pd r pre = [] \<Longrightarrow> size_of r = 0"
proof (induction pd r pre rule: flatten.induct)
  case (1 depth v a s pre)
  then show ?case by simp
next
  case (2 depth cs a s n pre)
  show ?case
  proof (cases "case depth of None \<Rightarrow> False | Some d \<Rightarrow> d \<le> length pre")
    case True
    with "2.prems" show ?thesis by simp
  next
    case False
    have "size_of (snd child) = 0" if "child \<in> set cs" for child
    proof -
      from that "2.prems"(1) have "size_inv (snd child)"
        by (auto simp: list_all_iff)
      moreover from that "2.prems"(2) False have "flatten depth (snd child) (pre @ [fst child]) = []"
        by auto
      ultimately show ?thesis
        using "2.IH" [OF False that] by simp
    qed
    then have "(\<Sum>child\<leftarrow>cs. size_of (snd child)) = 0"
      by (induction cs) auto
    with "2.prems"(1) show ?thesis by simp
  qed
qed

lemma prune_unit_deleteImpl:
  "prune_unit pd l (snd (deleteImpl r key)) k \<Longrightarrow> prune_unit pd l r k"
proof -
  assume a: "prune_unit pd l (snd (deleteImpl r key)) k"
  then obtain n' where n': "node_at (snd (deleteImpl r key)) k = Inr (Some n')"
    by (auto simp: prune_unit_def split: sum.splits option.splits)
  from deleteImpl_remaining [OF this] obtain n where
    "node_at r k = Inr (Some n)" "isLeaf n = isLeaf n'"
    by auto
  with a n' show ?thesis
    by (auto simp: prune_unit_def split: option.splits)
qed

lemma prune_unit_deleted:
  "key \<noteq> [] \<Longrightarrow> node_at r key \<noteq> Inl TypeError \<Longrightarrow> \<not> prune_unit pd l (snd (deleteImpl r key)) key"
  by (simp add: prune_unit_def deleteImpl_removes)

lemma prune_unit_root:
  "isBranch r \<Longrightarrow> pd \<noteq> Some 0 \<Longrightarrow> \<not> prune_unit pd 0 r []"
  by (cases r) (auto simp: prune_unit_def split: option.splits)

lemma flatten_keys_root:
  "size_inv r \<Longrightarrow> fst ` set (flatten pd r []) = {k. prune_unit pd 0 r k}"
  using flatten_keys [of r pd "[]"] by simp

lemma isBranch_deleteImpl: "isBranch (snd (deleteImpl b key)) = isBranch b"
  using isLeaf_deleteImpl [of b key]
  by (cases b; cases "snd (deleteImpl b key)") auto

lemma prune_loop_reaches_capacity:
  assumes "0 \<le> cap" and "pd \<noteq> Some 0"
  shows "size_inv r \<Longrightarrow> isBranch r \<Longrightarrow> {k. prune_unit pd 0 r k} \<subseteq> fst ` set us \<Longrightarrow>
     \<forall>u \<in> set us. node_at r (fst u) \<noteq> Inl TypeError \<Longrightarrow>
     \<exists>pruned r'. prune_loop cap r us = (Inr pruned, r') \<and> size_of r' \<le> cap"
proof (induction us arbitrary: r)
  case Nil
  then have "fst ` set (flatten pd r []) = {}"
    by (simp add: flatten_keys_root)
  then have "flatten pd r [] = []" by simp
  from flatten_empty_size [OF Nil.prems(1) this] assms(1) show ?case
    by simp
next
  case (Cons u us)
  obtain key val t sz where u: "u = (key, val, t, sz)"
    by (cases u)
  show ?case
  proof (cases "size_of r \<le> cap")
    case True
    then show ?thesis by (simp add: u)
  next
    case False
    obtain d r1 where del: "deleteImpl r key = (d, r1)"
      by (cases "deleteImpl r key")
    from Cons.prems(4) u have ok: "node_at r key \<noteq> Inl TypeError"
      by simp
    from deleteImpl_no_error [OF ok] del obtain x where d: "d = Inr x"
      by auto
    have r1: "r1 = snd (deleteImpl r key)"
      using del by simp
    have inv1: "size_inv r1"
      using size_inv_deleteImpl [OF Cons.prems(1) del] by simp
    have br1: "isBranch r1"
      using Cons.prems(2) by (simp add: r1 isBranch_deleteImpl)
    have units1: "{k. prune_unit pd 0 r1 k} \<subseteq> fst ` set us"
    proof
      fix k
      assume "k \<in> {k. prune_unit pd 0 r1 k}"
      then have k1: "prune_unit pd 0 r1 k" by simp
      then have k0: "prune_unit pd 0 r k"
        unfolding r1 by (rule prune_unit_deleteImpl)
      have "k \<noteq> key"
      proof
        assume "k = key"
        show False
        proof (cases "key = []")
          case True
          with k0 \<open>k = key\<close> prune_unit_root [OF Cons.prems(2) assms(2)] show False
            by simp
        next
          case False
          from prune_unit_deleted [OF this ok, of pd 0] k1 \<open>k = key\<close> show False
            by (simp add: r1)
        qed
      qed
      with k0 Cons.prems(3) u show "k \<in> fst ` set us"
        by auto
    qed
    have ok1: "\<forall>u \<in> set us. node_at r1 (fst u) \<noteq> Inl TypeError"
      using Cons.prems(4) deleteImpl_error_before [of r key] by (auto simp: r1)
    from Cons.IH [OF inv1 br1 units1 ok1] obtain pruned r' where
      "prune_loop cap r1 us = (Inr pruned, r')" "size_of r' \<le> cap"
      by auto
    with False del d show ?thesis
      by (simp add: u)
  qed
qed

lemma delete_all_Cons: "delete_all r (key # ks) = delete_all (snd (deleteImpl r key)) ks"
  by (simp add: delete_all_def)

lemma prune_loop_prefix:
  "prune_loop cap r us = (Inr pruned, r') \<Longrightarrow>
     \<exists>m \<le> length us.
       pruned = map evicted_of (take m us)
       \<and> r' = delete_all r (map fst (take m us))
       \<and> (\<forall>j < m. cap < size_of (delete_all r (map fst (take j us))))
       \<and> (m < length us \<longrightarrow> size_of r' \<le> cap)"
proof (induction us arbitrary: r pruned r')
  case Nil
  then show ?case by (simp add: delete_all_def)
next
  case (Cons u us)
  obtain key val t sz where u: "u = (key, val, t, sz)"
    by (cases u)
  show ?case
  proof (cases "size_of r \<le> cap")
    case True
    with Cons.prems have "pruned = []" "r' = r"
      by (simp_all add: u)
    with True show ?thesis
      by (intro exI [of _ 0]) (simp add: delete_all_def)
  next
    case False
    obtain d r1 where del: "deleteImpl r key = (d, r1)"
      by (cases "deleteImpl r key")
    obtain res2 r2 where rec: "prune_loop cap r1 us = (res2, r2)"
      by (cases "prune_loop cap r1 us")
    from Cons.prems False del rec obtain ps where ps: "res2 = Inr ps"
      and pruned: "pruned = (key, val, sz) # ps" and r': "r' = r2"
      by (cases d; cases res2) (auto simp: u)
    from Cons.IH [of r1 ps r2] rec ps obtain m where m: "m \<le> length us"
      "ps = map evicted_of (take m us)" "r2 = delete_all r1 (map fst (take m us))"
      "\<forall>j < m. cap < size_of (delete_all r1 (map fst (take j us)))"
      "m < length us \<longrightarrow> size_of r2 \<le> cap"
      by auto
    have r1: "r1 = snd (deleteImpl r key)"
      using del by simp
    have "\<forall>j < Suc m. cap < size_of (delete_all r (map fst (take j (u # us))))"
    proof (intro allI impI)
      fix j
      assume "j < Suc m"
      then show "cap < size_of (delete_all r (map fst (take j (u # us))))"
        using False m(4) by (cases j) (auto simp: u delete_all_Cons r1 delete_all_def)
    qed
    with m pruned r' show ?thesis
      by (intro exI [of _ "Suc m"]) (simp add: u evicted_of_def delete_all_Cons r1)
  qed
qed

lemma prune_evicts_least_recent:
  assumes "capacity opts = Some cap" and "pruneDepth opts \<noteq> Some 0"
    and "size_inv (root c)" and "isBranch (root c)" and "int cap < cache_size c"
  shows "\<exists>m \<le> length (flatten (pruneDepth opts) (root c) []).
      fst (prune opts c now) =
        Inr (map evicted_of (take m (sort_key (\<lambda>(key, val, t, sz). t) (flatten (pruneDepth opts) (root c) []))))
      \<and> root (snd (prune opts c now)) =
          delete_all (root c)
            (map fst (take m (sort_key (\<lambda>(key, val, t, sz). t) (flatten (pruneDepth opts) (root c) []))))
      \<and> (\<forall>j < m. int cap < size_of (delete_all (root c)
            (map fst (take j (sort_key (\<lambda>(key, val, t, sz). t) (flatten (pruneDepth opts) (root c) []))))))
      \<and> cache_size (snd (prune opts c now)) \<le> int cap"
proof -
  let ?us = "sort_key (\<lambda>(key, val, t, sz). t) (flatten (pruneDepth opts) (root c) [])"
  have keys: "fst ` set ?us = {k. prune_unit (pruneDepth opts) 0 (root c) k}"
    using flatten_keys_root [OF assms(3), of "pruneDepth opts"] by simp
  have ok: "\<forall>u \<in> set ?us. node_at (root c) (fst u) \<noteq> Inl TypeError"
  proof
    fix u
    assume "u \<in> set ?us"
    then have "fst u \<in> fst ` set ?us" by (rule imageI)
    with keys have "prune_unit (pruneDepth opts) 0 (root c) (fst u)" by simp
    then show "node_at (root c) (fst u) \<noteq> Inl TypeError"
      by (auto simp: prune_unit_def)
  qed
  from prune_loop_reaches_capacity [OF _ assms(2,3,4) _ ok, of "int cap"] keys
  obtain pruned r' where loop: "prune_loop (int cap) (root c) ?us = (Inr pruned, r')"
    and le: "size_of r' \<le> int cap"
    by auto
  from prune_loop_prefix [OF loop] obtain m where m: "m \<le> length ?us"
    "pruned = map evicted_of (take m ?us)" "r' = delete_all (root c) (map fst (take m ?us))"
    "\<forall>j < m. int cap < size_of (delete_all (root c) (map fst (take j ?us)))"
    by auto
  from assms(1,5) loop have res: "prune opts c now = (Inr pruned, c\<lparr>lastPruneAt := now, root := r'\<rparr>)"
    by (simp add: prune_def cache_size_def Let_def)
  from m le show ?thesis
    by (intro exI [of _ m]) (simp add: res cache_size_def)
qed

lemma flattened_alt: "flattened opts c = sort_key unit_atime (flatten (pruneDepth opts) (root c) [])"
  by (simp add: flattened_def unit_atime_def [abs_def])

text \<open>
  Eviction for every prune depth but 0. The list of units is sorted by
  access time, units of equal time in the order of the traversal. When the capacity is
  exceeded, in a trie with the size invariant, \<^verbatim>\<open>prune()\<close> evicts the first \<open>m\<close> units
  of that list, each by its key from the root; before each of these deletions the size
  exceeds the capacity, and afterwards it does not.
\<close>

lemma prune_order_and_capacity:
  assumes "capacity opts = Some cap" and "pruneDepth opts \<noteq> Some 0"
    and "size_inv (root c)" and "isBranch (root c)" and "int cap < cache_size c"
  shows "sorted (map unit_atime (flattened opts c))
    \<and> (\<forall>t. filter (\<lambda>u. unit_atime u = t) (flattened opts c) =
          filter (\<lambda>u. unit_atime u = t) (flatten (pruneDepth opts) (root c) []))
    \<and> (\<exists>m \<le> length (flattened opts c).
          fst (prune opts c now) = Inr (map evicted_of (take m (flattened opts c)))
          \<and> root (snd (prune opts c now)) = delete_all (root c) (map fst (take m (flattened opts c)))
          \<and> (\<forall>j < m. int cap < size_of (delete_all (root c) (map fst (take j (flattened opts c)))))
          \<and> cache_size (snd (prune opts c now)) \<le> int cap)"
proof (intro conjI allI)
  show "sorted (map unit_atime (flattened opts c))"
    by (simp add: flattened_alt)
  show "filter (\<lambda>u. unit_atime u = t) (flattened opts c) =
      filter (\<lambda>u. unit_atime u = t) (flatten (pruneDepth opts) (root c) [])" for t
    by (simp add: flattened_alt sort_key_stable)
  from prune_evicts_least_recent [OF assms, of now]
  show "\<exists>m \<le> length (flattened opts c).
          fst (prune opts c now) = Inr (map evicted_of (take m (flattened opts c)))
          \<and> root (snd (prune opts c now)) = delete_all (root c) (map fst (take m (flattened opts c)))
          \<and> (\<forall>j < m. int cap < size_of (delete_all (root c) (map fst (take j (flattened opts c)))))
          \<and> cache_size (snd (prune opts c now)) \<le> int cap"
    by (simp add: flattened_def)
qed

lemma prune_order_and_capacity_example:
  "capacity example_options = Some 100 \<and> pruneDepth example_options \<noteq> Some 0
    \<and> size_inv (root example5) \<and> isBranch (root example5) \<and> int 100 < cache_size example5
    \<and> cache_size (snd (prune example_options example5 5)) \<le> int 100"
proof -
  have ex: "example5 =
     \<lparr>root = Branch
        [(1, Branch [(1, Leaf 30 0 30), (2, Leaf 30 3 30), (3, Leaf 30 4 30)] 4 90 3),
         (2, Branch [(1, Leaf 30 1 30), (2, Leaf 30 2 30)] 2 60 2)] 4 150 5,
      lastPruneAt = 0\<rparr>"
    by (simp add: example5_def example_cache_eq)
  have h: "capacity example_options = Some 100" "pruneDepth example_options \<noteq> Some 0"
    "size_inv (root example5)" "isBranch (root example5)" "int 100 < cache_size example5"
    by (simp_all add: ex example_options_def cache_size_def)
  from prune_order_and_capacity [OF h, of 5] h show ?thesis
    by blast
qed

subsection \<open>The root stays a Branch\<close>

lemma isBranch_insertImpl: "isBranch (snd (insertImpl sizeof b key val date replace)) = isBranch b"
proof (cases b)
  case (Leaf v0 a s)
  then show ?thesis by (cases key) (simp_all add: insertImpl_Leaf)
next
  case (Branch cs a s n)
  then show ?thesis
    by (cases "(sizeof, b, key, val, date, replace)" rule: insertImpl.cases)
      (auto simp: Let_def split: option.splits prod.splits sum.splits)
qed

lemma isBranch_getImpl: "isBranch (snd (getImpl now node key u)) = isBranch node"
  by (cases key; cases node) (auto simp: Let_def split: option.splits prod.splits)

lemma isBranch_prune_loop: "isBranch (snd (prune_loop cap r us)) = isBranch r"
proof (induction us arbitrary: r)
  case Nil
  show ?case by simp
next
  case (Cons u us)
  obtain key val t sz where u: "u = (key, val, t, sz)"
    by (cases u)
  obtain d r1 where del: "deleteImpl r key = (d, r1)"
    by (cases "deleteImpl r key")
  with isBranch_deleteImpl [of r key] have "isBranch r1 = isBranch r" by simp
  with Cons.IH [of r1] del show ?case
    by (auto simp: u split: sum.splits prod.splits)
qed

lemma isBranch_prune: "isBranch (root (snd (prune opts c now))) = isBranch (root c)"
  by (cases "capacity opts") (simp_all add: prune_def Let_def case_prod_beta isBranch_prune_loop)

lemma isBranch_autoPrune_check:
  "isBranch (root (snd (autoPrune_check opts c now))) = isBranch (root c)"
  using isBranch_prune [of opts c now]
  by (auto simp: autoPrune_check_def split: prod.splits sum.splits)

lemma root_deleteOne: "root (snd (deleteOne c key)) = snd (deleteImpl (root c) key)"
  by (simp add: deleteOne_def split: prod.splits sum.splits)

lemma isBranch_insertMany_loop:
  "isBranch (snd (insertMany_loop sizeof r vals replace now tot)) = isBranch r"
proof (induction vals arbitrary: r tot)
  case Nil
  show ?case by simp
next
  case (Cons kv vals)
  obtain key val where kv: "kv = (key, val)"
    by (cases kv)
  obtain x r1 where ins: "insertImpl sizeof r key val now replace = (x, r1)"
    by (cases "insertImpl sizeof r key val now replace")
  with isBranch_insertImpl [of sizeof r key val now replace] have "isBranch r1 = isBranch r" by simp
  with Cons.IH [of r1] ins show ?case
    by (auto simp: kv split: sum.splits prod.splits)
qed

lemma isBranch_step: "isBranch (root (step opts sizeof nullish c call)) = isBranch (root c)"
proof (cases call)
  case (InsertOne key val replace now)
  then show ?thesis
    by (simp add: snd_insertOne isBranch_autoPrune_check isBranch_insertImpl)
next
  case (InsertMany vals replace now)
  from root_insertMany [of sizeof c vals replace now opts] obtain c1 where
    "root c1 = snd (insertMany_loop sizeof (root c) vals replace now 0)"
    "snd (insertMany opts sizeof c vals replace now) = c1
        \<or> snd (insertMany opts sizeof c vals replace now) = snd (autoPrune_check opts c1 now)"
    by blast
  with InsertMany show ?thesis
    by (auto simp: isBranch_autoPrune_check isBranch_insertMany_loop)
next
  case (Ensure key val now)
  then show ?thesis
    by (auto simp: snd_ensure snd_insertOne isBranch_autoPrune_check isBranch_insertImpl
        split: sum.splits option.splits)
next
  case (DeleteOne key)
  then show ?thesis
    by (simp add: root_deleteOne isBranch_deleteImpl)
next
  case (DeleteMany ks)
  have "isBranch (root (snd (deleteMany c' ks))) = isBranch (root c')" for c'
  proof (induction ks arbitrary: c')
    case Nil
    show ?case by simp
  next
    case (Cons key ks)
    have "isBranch (root (snd (deleteOne c' key))) = isBranch (root c')"
      by (simp add: root_deleteOne isBranch_deleteImpl)
    with Cons.IH [of "snd (deleteOne c' key)"] show ?case
      by (auto split: prod.splits option.splits)
  qed
  with DeleteMany show ?thesis by simp
next
  case Clear
  then show ?thesis by (auto simp: clear_def split: node.splits)
next
  case (Prune now)
  then show ?thesis by (simp add: isBranch_prune)
next
  case (Get key u now)
  then show ?thesis by (simp add: root_get isBranch_getImpl)
qed

lemma isBranch_run: "isBranch (root (run opts sizeof nullish c calls)) = isBranch (root c)"
  unfolding run_def by (induction calls arbitrary: c) (simp_all add: isBranch_step)

lemma isBranch_new_cache: "isBranch (root (new_cache opts sizeof vals now))"
proof -
  from root_insertMany [of sizeof "empty_cache now" vals True now opts] obtain c1 where
    "root c1 = snd (insertMany_loop sizeof (root (empty_cache now)) vals True now 0)"
    "snd (insertMany opts sizeof (empty_cache now) vals True now) = c1
        \<or> snd (insertMany opts sizeof (empty_cache now) vals True now) = snd (autoPrune_check opts c1 now)"
    by blast
  then show ?thesis
    by (auto simp: new_cache_def isBranch_autoPrune_check isBranch_insertMany_loop empty_cache_def)
qed

lemma root_is_Branch: "isBranch (root (run opts sizeof nullish (new_cache opts sizeof vals t0) calls))"
  by (simp add: isBranch_run isBranch_new_cache)

subsection \<open>The count invariant for keys of one length\<close>

lemma count_inv_count_of: "count_inv x \<Longrightarrow> count_of x = int (leaves x)"
  by (cases x) auto

lemma int_leaves_sum:
  "int (\<Sum>child\<leftarrow>cs. leaves (snd child)) = (\<Sum>child\<leftarrow>cs. int (leaves (snd child)))"
  by (induction cs) auto

lemma trie_inv_Branch:
  "trie_inv d (Branch cs a s n) \<longleftrightarrow>
     distinct (map fst cs) \<and> s = (\<Sum>child\<leftarrow>cs. size_of (snd child))
     \<and> n = (\<Sum>child\<leftarrow>cs. int (leaves (snd child))) \<and> 0 < d
     \<and> list_all (\<lambda>child. trie_inv (d - 1) (snd child)) cs"
  by (auto simp: trie_inv_def size_inv_Branch int_leaves_sum list_all_iff simp del: size_inv.simps(2))

lemma trie_inv_Leaf: "trie_inv d (Leaf v a s) \<longleftrightarrow> 0 \<le> s \<and> d = 0"
  by (auto simp: trie_inv_def)

lemma trie_inv_child:
  "list_all (\<lambda>child. trie_inv d (snd child)) cs \<Longrightarrow> map_get cs k = Some x \<Longrightarrow> trie_inv d x"
  by (auto dest!: map_get_Some_mem simp: list_all_iff)

lemma trie_inv_count: "trie_inv d x \<Longrightarrow> count_of x = int (leaves x)"
  by (simp add: trie_inv_def count_inv_count_of)

lemma sum_leaves_map_set:
  "(\<Sum>c\<leftarrow>map_set cs k y. int (leaves (snd c))) =
     (\<Sum>c\<leftarrow>cs. int (leaves (snd c))) - (case map_get cs k of None \<Rightarrow> 0 | Some x \<Rightarrow> int (leaves x))
       + int (leaves y)"
  using sum_map_set [where g = "\<lambda>x. int (leaves x)"] .

lemma sum_leaves_map_delete:
  "distinct (map fst cs) \<Longrightarrow> map_get cs k = Some x \<Longrightarrow>
     (\<Sum>c\<leftarrow>map_delete cs k. int (leaves (snd c))) = (\<Sum>c\<leftarrow>cs. int (leaves (snd c))) - int (leaves x)"
  using sum_map_delete [where g = "\<lambda>x. int (leaves x)"] .

lemma trie_inv_insertImpl:
  "trie_inv d b \<Longrightarrow> length key = d \<Longrightarrow> insertImpl sizeof b key val date replace = (res, b') \<Longrightarrow>
     trie_inv d b' \<and>
     int (leaves b') = int (leaves b) + (case res of Inr (sz, diff, True) \<Rightarrow> 1 | _ \<Rightarrow> 0)"
proof (induction key arbitrary: b d b' res)
  case Nil
  then show ?case by auto
next
  case (Cons head tail)
  from Cons.prems(1,2) obtain cs a s n where b: "b = Branch cs a s n"
    by (cases b) (auto simp: trie_inv_Leaf)
  have inv: "distinct (map fst cs)" "s = (\<Sum>c\<leftarrow>cs. size_of (snd c))"
    "n = (\<Sum>c\<leftarrow>cs. int (leaves (snd c)))" "list_all (\<lambda>c. trie_inv (d - 1) (snd c)) cs"
    using Cons.prems(1) by (simp_all add: b trie_inv_Branch)
  show ?case
  proof (cases tail)
    case Nil
    with Cons.prems(2) have d: "d = 1" by simp
    have leaf: "leaves e = 1 \<and> 0 \<le> size_of e" if "map_get cs head = Some e" for e
    proof -
      from trie_inv_child [OF inv(4) that] have "trie_inv 0 e"
        by (simp add: d)
      then show ?thesis
        by (cases e) (auto simp: trie_inv_Leaf trie_inv_Branch)
    qed
    from Cons.prems(3) Nil inv leaf show ?thesis
      by (auto simp: b d Let_def trie_inv_Branch trie_inv_Leaf distinct_map_set list_all_map_set
          sum_map_set sum_leaves_map_set int_leaves_sum split: if_splits option.splits)
  next
    case tl: (Cons t ts)
    with Cons.prems(2) have d: "d - 1 = length tail" "0 < d - 1" "0 < d"
      by auto
    let ?child = "child_or_new cs head date"
    obtain r child' where rec: "insertImpl sizeof ?child tail val date replace = (r, child')"
      by (cases "insertImpl sizeof ?child tail val date replace")
    have child_inv: "trie_inv (d - 1) ?child"
      using inv(4) d(2)
      by (auto simp: child_or_new_def trie_inv_Branch split: option.splits dest: trie_inv_child)
    have child_leaves: "int (leaves ?child) = (case map_get cs head of None \<Rightarrow> 0 | Some x \<Rightarrow> int (leaves x))"
      by (simp add: child_or_new_def split: option.splits)
    from Cons.IH [OF child_inv d(1) [symmetric] rec]
    have IH: "trie_inv (d - 1) child'"
      "int (leaves child') = int (leaves ?child) + (case r of Inr (sz, diff, True) \<Rightarrow> 1 | _ \<Rightarrow> 0)"
      by simp_all
    have child_size: "size_of ?child = (case map_get cs head of None \<Rightarrow> 0 | Some x \<Rightarrow> size_of x)"
      by (simp add: child_or_new_def split: option.splits)
    from child_inv have "size_inv ?child"
      by (simp add: trie_inv_def)
    from size_inv_insertImpl [OF this rec]
    have size': "size_of child' = size_of ?child + (case r of Inl e \<Rightarrow> 0 | Inr (sz, diff, inserted) \<Rightarrow> diff)"
      by simp
    from Cons.prems(3) rec have res: "res = r"
      and b': "b' = (case r of Inl e \<Rightarrow> Branch (map_set cs head child') a s n
        | Inr (sz, diff, inserted) \<Rightarrow>
            Branch (map_set cs head child') date (s + diff) (n + (if inserted then 1 else 0)))"
      unfolding b tl insertImpl_step by (auto simp: tl split: sum.splits)
    have sizes: "(\<Sum>c\<leftarrow>map_set cs head child'. size_of (snd c)) =
        s + (case r of Inl e \<Rightarrow> 0 | Inr (sz, diff, inserted) \<Rightarrow> diff)"
      using inv(2) size' child_size by (simp add: sum_map_set)
    have counts: "(\<Sum>c\<leftarrow>map_set cs head child'. int (leaves (snd c))) =
        n + (case r of Inr (sz, diff, True) \<Rightarrow> 1 | _ \<Rightarrow> 0)"
      using inv(3) IH(2) child_leaves by (simp add: sum_leaves_map_set)
    have all: "list_all (\<lambda>c. trie_inv (d - 1) (snd c)) (map_set cs head child')"
      using inv(4) IH(1) by (simp add: list_all_map_set)
    have dist: "distinct (map fst (map_set cs head child'))"
      using inv(1) by (rule distinct_map_set)
    have "trie_inv d b'"
      using sizes counts all dist d(3)
      by (auto simp: b' trie_inv_Branch split: sum.splits bool.splits)
    moreover have "int (leaves b') = int (leaves b) + (case res of Inr (sz, diff, True) \<Rightarrow> 1 | _ \<Rightarrow> 0)"
      using counts inv(3)
      by (auto simp: b' b res int_leaves_sum split: sum.splits bool.splits)
    ultimately show ?thesis by simp
  qed
qed

lemma count_of_alt: "(if isBranch x then count_of x else 1) = count_of x"
  by (cases x) auto

lemma trie_inv_deleteImpl:
  "trie_inv d b \<Longrightarrow> deleteImpl b key = (res, b') \<Longrightarrow>
     trie_inv d b' \<and>
     (case res of
        Inr (Some deleted) \<Rightarrow> count_inv deleted \<and> int (leaves b') = int (leaves b) - int (leaves deleted)
      | _ \<Rightarrow> b' = b)"
proof (induction key arbitrary: b d b' res)
  case Nil
  then show ?case by auto
next
  case (Cons head tail)
  show ?case
  proof (cases b)
    case (Leaf v0 a s)
    with Cons.prems show ?thesis by (auto simp: deleteImpl_Leaf)
  next
    case b: (Branch cs a s n)
    have inv: "distinct (map fst cs)" "s = (\<Sum>c\<leftarrow>cs. size_of (snd c))"
      "n = (\<Sum>c\<leftarrow>cs. int (leaves (snd c)))" "list_all (\<lambda>c. trie_inv (d - 1) (snd c)) cs" "0 < d"
      using Cons.prems(1) by (simp_all add: b trie_inv_Branch)
    show ?thesis
    proof (cases "map_get cs head")
      case None
      with Cons.prems show ?thesis
        by (auto simp: b deleteImpl_no_child simp del: deleteImpl.simps)
    next
      case (Some child)
      have child_inv: "trie_inv (d - 1) child"
        using inv(4) Some by (rule trie_inv_child)
      show ?thesis
      proof (cases tail)
        case Nil
        from Cons.prems(2) Some have res: "res = Inr (Some child)"
          and b': "b' = Branch (map_delete cs head) a (s - size_of child) (n - count_of child)"
          by (auto simp: b Nil count_of_alt)
        have "trie_inv d b'"
          using inv Some child_inv
          by (auto simp: b' trie_inv_Branch distinct_map_delete list_all_map_delete sum_map_delete
              sum_leaves_map_delete trie_inv_count)
        moreover have "int (leaves b') = int (leaves b) - int (leaves child)"
          using inv Some by (simp add: b' b int_leaves_sum sum_leaves_map_delete)
        ultimately show ?thesis
          using child_inv by (simp add: res trie_inv_def)
      next
        case tl: (Cons t ts)
        obtain r child' where rec: "deleteImpl child tail = (r, child')"
          by (cases "deleteImpl child tail")
        from Cons.IH [OF child_inv rec]
        have IH: "trie_inv (d - 1) child'"
          "case r of Inr (Some deleted) \<Rightarrow>
             count_inv deleted \<and> int (leaves child') = int (leaves child) - int (leaves deleted)
           | _ \<Rightarrow> child' = child"
          by simp_all
        from Cons.prems(2) rec have res: "res = r"
          and b': "b' = (case r of
              Inr (Some deleted) \<Rightarrow>
                Branch (map_set cs head child') a (s - size_of deleted) (n - count_of deleted)
            | _ \<Rightarrow> Branch (map_set cs head child') a s n)"
          unfolding b tl deleteImpl_step [OF Some]
          by (auto simp: tl count_of_alt split: sum.splits option.splits)
        show ?thesis
        proof (cases "\<exists>deleted. r = Inr (Some deleted)")
          case False
          with IH(2) have "child' = child"
            by (auto split: sum.splits option.splits)
          with False Some have "b' = b"
            by (auto simp: b' b map_set_same_value split: sum.splits option.splits)
          with False Cons.prems(1) show ?thesis
            by (auto simp: res split: sum.splits option.splits)
        next
          case True
          then obtain deleted where r: "r = Inr (Some deleted)" by auto
          with IH(2) have del: "count_inv deleted"
            "int (leaves child') = int (leaves child) - int (leaves deleted)"
            by simp_all
          from child_inv have "size_inv child"
            by (simp add: trie_inv_def)
          from size_inv_deleteImpl [OF this rec] r
          have size': "size_of child' = size_of child - size_of deleted"
            by simp
          have b'': "b' = Branch (map_set cs head child') a (s - size_of deleted) (n - count_of deleted)"
            by (simp add: b' r)
          have "trie_inv d b'"
            using inv Some IH(1) del size'
            by (auto simp: b'' trie_inv_Branch distinct_map_set list_all_map_set sum_map_set
                sum_leaves_map_set count_inv_count_of)
          moreover have "int (leaves b') = int (leaves b) - int (leaves deleted)"
            using inv Some del by (simp add: b'' b int_leaves_sum sum_leaves_map_set)
          ultimately show ?thesis
            using del(1) by (simp add: res r)
        qed
      qed
    qed
  qed
qed

lemma trie_inv_touch: "trie_inv d (touch now node) = trie_inv d node"
  by (cases node) (auto simp: trie_inv_def)

lemma leaves_touch: "leaves (touch now node) = leaves node"
  by (cases node) auto

lemma size_of_getImpl: "size_inv node \<Longrightarrow> size_of (snd (getImpl now node key u)) = size_of node"
  using size_inv_getImpl [of node now key u "fst (getImpl now node key u)" "snd (getImpl now node key u)"]
  by simp

lemma trie_inv_getImpl:
  "trie_inv d node \<Longrightarrow>
     trie_inv d (snd (getImpl now node key u))
     \<and> int (leaves (snd (getImpl now node key u))) = int (leaves node)"
proof (induction key arbitrary: node d)
  case Nil
  then show ?case by (simp add: Let_def trie_inv_touch leaves_touch)
next
  case (Cons head tail)
  show ?case
  proof (cases node)
    case (Leaf v a s)
    with Cons.prems show ?thesis
      by (auto simp: snd_getImpl_Leaf trie_inv_Leaf simp del: getImpl.simps)
  next
    case b: (Branch cs a s n)
    have inv: "distinct (map fst cs)" "s = (\<Sum>c\<leftarrow>cs. size_of (snd c))"
      "n = (\<Sum>c\<leftarrow>cs. int (leaves (snd c)))" "list_all (\<lambda>c. trie_inv (d - 1) (snd c)) cs" "0 < d"
      using Cons.prems(1) by (simp_all add: b trie_inv_Branch)
    show ?thesis
    proof (cases "map_get cs head")
      case None
      with Cons.prems show ?thesis
        by (auto simp: b snd_getImpl_no_child trie_inv_Branch simp del: getImpl.simps)
    next
      case (Some child)
      have child_inv: "trie_inv (d - 1) child"
        using inv(4) Some by (rule trie_inv_child)
      let ?child' = "snd (getImpl now child tail u)"
      from Cons.IH [OF child_inv] have c': "trie_inv (d - 1) ?child'"
        "int (leaves ?child') = int (leaves child)"
        by simp_all
      from child_inv have "size_inv child" by (simp add: trie_inv_def)
      then have sz: "size_of ?child' = size_of child"
        by (rule size_of_getImpl)
      from inv Some c' sz show ?thesis
        by (auto simp: b snd_getImpl_child trie_inv_Branch distinct_map_set list_all_map_set
            sum_map_set sum_leaves_map_set int_leaves_sum simp del: getImpl.simps)
    qed
  qed
qed

lemma trie_inv_snd_deleteImpl: "trie_inv d b \<Longrightarrow> trie_inv d (snd (deleteImpl b key))"
  using trie_inv_deleteImpl [of d b key "fst (deleteImpl b key)" "snd (deleteImpl b key)"] by simp

lemma trie_inv_snd_insertImpl:
  "trie_inv d b \<Longrightarrow> length key = d \<Longrightarrow> trie_inv d (snd (insertImpl sizeof b key val date replace))"
  using trie_inv_insertImpl [of d b key sizeof val date replace
      "fst (insertImpl sizeof b key val date replace)" "snd (insertImpl sizeof b key val date replace)"]
  by simp

lemma trie_inv_prune_loop: "trie_inv d r \<Longrightarrow> trie_inv d (snd (prune_loop cap r us))"
proof (induction us arbitrary: r)
  case Nil
  then show ?case by simp
next
  case (Cons u us)
  obtain key val t sz where u: "u = (key, val, t, sz)"
    by (cases u)
  obtain x r1 where del: "deleteImpl r key = (x, r1)"
    by (cases "deleteImpl r key")
  with trie_inv_snd_deleteImpl [OF Cons.prems, of key] have "trie_inv d r1" by simp
  with Cons.IH [of r1] Cons.prems del show ?case
    by (auto simp: u split: sum.splits prod.splits)
qed

lemma trie_inv_prune: "trie_inv d (root c) \<Longrightarrow> trie_inv d (root (snd (prune opts c now)))"
  by (cases "capacity opts") (simp_all add: prune_def Let_def case_prod_beta trie_inv_prune_loop)

lemma trie_inv_autoPrune_check:
  "trie_inv d (root c) \<Longrightarrow> trie_inv d (root (snd (autoPrune_check opts c now)))"
  using trie_inv_prune [of d c opts now]
  by (auto simp: autoPrune_check_def split: prod.splits sum.splits)

lemma trie_inv_insertOne:
  "trie_inv d (root c) \<Longrightarrow> length key = d \<Longrightarrow>
     trie_inv d (root (snd (insertOne opts sizeof c key val replace now)))"
  by (simp add: snd_insertOne trie_inv_autoPrune_check trie_inv_snd_insertImpl)

lemma trie_inv_insertMany_loop:
  "trie_inv d r \<Longrightarrow> list_all (\<lambda>kv. length (fst kv) = d) vals \<Longrightarrow>
     trie_inv d (snd (insertMany_loop sizeof r vals replace now tot))"
proof (induction vals arbitrary: r tot)
  case Nil
  then show ?case by simp
next
  case (Cons kv vals)
  obtain key val where kv: "kv = (key, val)"
    by (cases kv)
  obtain x r1 where ins: "insertImpl sizeof r key val now replace = (x, r1)"
    by (cases "insertImpl sizeof r key val now replace")
  from Cons.prems kv have len: "length key = d" and rest: "list_all (\<lambda>kv. length (fst kv) = d) vals"
    by simp_all
  from trie_inv_snd_insertImpl [OF Cons.prems(1) len, of sizeof val now replace] ins
  have r1: "trie_inv d r1" by simp
  with Cons.IH [OF r1 rest] ins show ?case
    by (auto simp: kv split: sum.splits prod.splits)
qed

lemma trie_inv_insertMany:
  assumes "trie_inv d (root c)" and "list_all (\<lambda>kv. length (fst kv) = d) vals"
  shows "trie_inv d (root (snd (insertMany opts sizeof c vals replace now)))"
proof -
  from root_insertMany [of sizeof c vals replace now opts] obtain c1 where
    c1: "root c1 = snd (insertMany_loop sizeof (root c) vals replace now 0)"
    and alt: "snd (insertMany opts sizeof c vals replace now) = c1
        \<or> snd (insertMany opts sizeof c vals replace now) = snd (autoPrune_check opts c1 now)"
    by blast
  from trie_inv_insertMany_loop [OF assms, of sizeof replace now 0] c1 have "trie_inv d (root c1)"
    by simp
  with alt trie_inv_autoPrune_check [of d c1 opts now] show ?thesis
    by auto
qed

lemma trie_inv_deleteMany: "trie_inv d (root c) \<Longrightarrow> trie_inv d (root (snd (deleteMany c ks)))"
proof (induction ks arbitrary: c)
  case Nil
  then show ?case by simp
next
  case (Cons key ks)
  have "trie_inv d (root (snd (deleteOne c key)))"
    using Cons.prems by (simp add: root_deleteOne trie_inv_snd_deleteImpl)
  with Cons.IH [of "snd (deleteOne c key)"] show ?case
    by (auto split: prod.splits option.splits)
qed

lemma trie_inv_step:
  "trie_inv d (root c) \<Longrightarrow> fixed_depth d call \<Longrightarrow> trie_inv d (root (step opts sizeof nullish c call))"
proof (cases call)
  case (Ensure key val now)
  assume "trie_inv d (root c)" "fixed_depth d call"
  with Ensure show ?thesis
    by (auto simp: snd_ensure trie_inv_insertOne split: sum.splits option.splits)
qed (simp_all add: trie_inv_insertOne trie_inv_insertMany root_deleteOne trie_inv_snd_deleteImpl
    trie_inv_deleteMany trie_inv_prune root_get trie_inv_getImpl)

lemma trie_inv_run:
  "trie_inv d (root c) \<Longrightarrow> list_all (fixed_depth d) calls \<Longrightarrow>
     trie_inv d (root (run opts sizeof nullish c calls))"
  unfolding run_def by (induction calls arbitrary: c) (simp_all add: trie_inv_step)

lemma trie_inv_new_cache:
  "0 < d \<Longrightarrow> list_all (\<lambda>kv. length (fst kv) = d) vals \<Longrightarrow>
     trie_inv d (root (new_cache opts sizeof vals now))"
  unfolding new_cache_def
  by (rule trie_inv_insertMany) (simp_all add: empty_cache_def trie_inv_Branch)

text \<open>
  When every stored key has the length \<open>d\<close> and \<^verbatim>\<open>clear()\<close> is not
  called, every Branch counts its Leaf descendants in every state a run reaches, and
  \<^verbatim>\<open>count\<close> is the number of Leaves in the trie.
\<close>

lemma count_invariant_fixed_depth:
  assumes "0 < d" and "list_all (\<lambda>kv. length (fst kv) = d) vals"
    and "list_all (fixed_depth d) calls"
  shows "count_inv (root (run opts sizeof nullish (new_cache opts sizeof vals t0) calls))
    \<and> count (run opts sizeof nullish (new_cache opts sizeof vals t0) calls) =
        int (leaves (root (run opts sizeof nullish (new_cache opts sizeof vals t0) calls)))"
proof -
  from trie_inv_run [OF trie_inv_new_cache [OF assms(1,2)] assms(3)]
  have "trie_inv d (root (run opts sizeof nullish (new_cache opts sizeof vals t0) calls))" .
  then show ?thesis
    by (simp add: trie_inv_def count_def partial_count_def rootPartial_def count_inv_count_of)
qed

lemma count_invariant_fixed_depth_example:
  "(0::nat) < 2 \<and> list_all (fixed_depth 2) (example_calls 0 1 2 3 4 @ [DeleteOne [1], Prune 9])
    \<and> count_inv (root (run example_options (\<lambda>v. v) (\<lambda>v. False) (new_cache example_options (\<lambda>v. v) [] 0)
        (example_calls 0 1 2 3 4 @ [DeleteOne [1], Prune 9])))"
proof -
  have a: "(0::nat) < 2" by simp
  have b: "list_all (\<lambda>kv. length (fst kv) = 2) ([] :: (nat list \<times> nat) list)" by simp
  have c: "list_all (fixed_depth 2) (example_calls 0 1 2 3 4 @ [DeleteOne [1], Prune 9])"
    by (simp add: example_calls_def)
  from count_invariant_fixed_depth [OF a b c, of example_options "\<lambda>v. v" "\<lambda>v. False" 0] a c show ?thesis
    by simp
qed

subsection \<open>The partial view: what agrees with the cache\<close>





subsection \<open>\<^verbatim>\<open>clear()\<close>: what it resets\<close>

text \<open>
  After \<^verbatim>\<open>clear()\<close> the size is 0, no key is left, \<^verbatim>\<open>get\<close>
  returns absent for every key and the size invariant holds; \<^verbatim>\<open>count\<close> is what it was
  before the call.
\<close>

lemma clear_resets_all_but_count:
  assumes "isBranch (root c)"
  shows "cache_size (clear c) = 0
    \<and> keys (clear c) = []
    \<and> fst (get (clear c) key u now) = Inr None
    \<and> size_inv (root (clear c))
    \<and> count (clear c) = count c"
proof -
  from assms obtain cs a s n where r: "root c = Branch cs a s n"
    by (cases "root c") auto
  then have cl: "root (clear c) = Branch [] a 0 n"
    by (simp add: clear_def)
  show ?thesis
    by (cases key) (simp_all add: cl r get_eq cache_size_def keys_def count_def partial_count_def rootPartial_def)
qed

subsection \<open>Keys that run through a Leaf\<close>

text \<open>
  A key longer than the path to a Leaf makes \<^verbatim>\<open>insertOne\<close>, \<^verbatim>\<open>deleteOne\<close> and \<^verbatim>\<open>get\<close>
  throw, with nothing changed but the timestamps that \<^verbatim>\<open>get\<close> has written on its way.
  With keys of one length, and their prefixes, no walk runs through a Leaf.
\<close>

lemma key_through_leaf_throws:
  "fst (insertOne unbounded (\<lambda>v. v) view_cache [1, 2, 3] 7 True 5) = Inl TypeError
    \<and> fst (deleteOne view_cache [1, 2, 3]) = Some TypeError
    \<and> fst (get view_cache [1, 2, 3] True 5) = Inl TypeError
    \<and> forget_atime (root (snd (get view_cache [1, 2, 3] True 5))) = forget_atime (root view_cache)
    \<and> snd (deleteOne view_cache [1, 2, 3]) = view_cache
    \<and> snd (insertOne unbounded (\<lambda>v. v) view_cache [1, 2, 3] 7 True 5) = view_cache"
  by (simp add: view_cache_eq cache_ops shouldAutoPrune_def unbounded_def Let_def)

lemma depth_inv_child:
  "list_all (\<lambda>child. depth_inv d (snd child)) cs \<Longrightarrow> map_get cs k = Some x \<Longrightarrow> depth_inv d x"
  by (auto dest!: map_get_Some_mem simp: list_all_iff)

lemma fixed_depth_no_TypeError:
  "depth_inv d r \<Longrightarrow> length key \<le> d \<Longrightarrow> node_at r key \<noteq> Inl TypeError"
proof (induction key arbitrary: r d)
  case Nil
  show ?case by simp
next
  case (Cons head tail)
  from Cons.prems obtain cs a s n where r: "r = Branch cs a s n"
    and kids: "list_all (\<lambda>child. depth_inv (d - 1) (snd child)) cs"
    by (cases r) auto
  show ?case
  proof (cases "map_get cs head")
    case None
    then show ?thesis by (simp add: r)
  next
    case (Some child)
    from depth_inv_child [OF kids Some] Cons.prems(2) Cons.IH [of "d - 1" child] show ?thesis
      by (simp add: r Some)
  qed
qed

subsection \<open>The eviction check: no exception, no value stored or altered\<close>

text \<open>
  In a state with the size invariant the eviction loop does not throw: the keys that
  \<^verbatim>\<open>flatten\<close> lists are keys of nodes of the trie. The trie after the loop is the trie
  before it with the evicted keys deleted, and a Leaf that a deletion leaves in the trie is
  the Leaf that was there.
\<close>

lemma prune_loop_no_error:
  "\<forall>u \<in> set us. node_at r (fst u) \<noteq> Inl TypeError \<Longrightarrow> \<exists>pruned. fst (prune_loop cap r us) = Inr pruned"
proof (induction us arbitrary: r)
  case Nil
  show ?case by simp
next
  case (Cons u us)
  obtain key val t sz where u: "u = (key, val, t, sz)"
    by (cases u)
  show ?case
  proof (cases "size_of r \<le> cap")
    case True
    then show ?thesis by (simp add: u)
  next
    case False
    obtain d r1 where del: "deleteImpl r key = (d, r1)"
      by (cases "deleteImpl r key")
    from Cons.prems have "node_at r key \<noteq> Inl TypeError"
      by (simp add: u)
    from deleteImpl_no_error [OF this] del obtain x where d: "d = Inr x"
      by auto
    have "\<forall>u \<in> set us. node_at r1 (fst u) \<noteq> Inl TypeError"
      using Cons.prems deleteImpl_error_before [of r key] del by auto
    from Cons.IH [OF this] obtain ps where "fst (prune_loop cap r1 us) = Inr ps"
      by auto
    with False del d show ?thesis
      by (auto simp: u split: prod.splits sum.splits)
  qed
qed

lemma prune_no_error:
  assumes "size_inv (root c)"
  shows "\<exists>pruned. fst (prune opts c now) = Inr pruned"
proof (cases "capacity opts")
  case None
  then show ?thesis by (simp add: prune_def)
next
  case (Some cap)
  let ?us = "sort_key (\<lambda>(key, val, t, sz). t) (flatten (pruneDepth opts) (root c) [])"
  have "\<forall>u \<in> set ?us. node_at (root c) (fst u) \<noteq> Inl TypeError"
  proof
    fix u
    assume "u \<in> set ?us"
    then have "fst u \<in> fst ` set (flatten (pruneDepth opts) (root c) [])"
      by auto
    with flatten_keys_root [OF assms] have "prune_unit (pruneDepth opts) 0 (root c) (fst u)"
      by auto
    then show "node_at (root c) (fst u) \<noteq> Inl TypeError"
      by (auto simp: prune_unit_def split: sum.splits)
  qed
  from prune_loop_no_error [OF this] obtain ps where
    "fst (prune_loop (int cap) (root c) ?us) = Inr ps"
    by blast
  then show ?thesis
    using Some by (auto simp: prune_def Let_def cache_size_def split: prod.splits)
qed

lemma autoPrune_check_no_error:
  "size_inv (root c) \<Longrightarrow> fst (autoPrune_check opts c now) = None"
  using prune_no_error [of c opts now]
  by (auto simp: autoPrune_check_def split: prod.splits sum.splits)

lemma fst_insertOne:
  assumes "size_inv (root c)"
  shows "fst (insertOne opts sizeof c key v replace now) =
     (case fst (insertImpl sizeof (root c) key v now replace) of
        Inl e \<Rightarrow> Inl e
      | Inr (sz, diff, inserted) \<Rightarrow> Inr sz)"
proof -
  obtain res r' where ins: "insertImpl sizeof (root c) key v now replace = (res, r')"
    by (cases "insertImpl sizeof (root c) key v now replace")
  from size_inv_insertImpl [OF assms ins] have "size_inv (root (c\<lparr>root := r'\<rparr>))"
    by simp
  from autoPrune_check_no_error [OF this, of opts now] show ?thesis
    by (auto simp: insertOne_def ins split: prod.splits option.splits)
qed

text \<open>A Leaf that a deletion leaves in the trie is the Leaf that was there.\<close>

lemma deleteImpl_leaf_at:
  "node_at (snd (deleteImpl b key)) q = Inr (Some (Leaf x a0 s0)) \<Longrightarrow>
     node_at b q = Inr (Some (Leaf x a0 s0))"
proof (induction key arbitrary: b q)
  case Nil
  then show ?case by simp
next
  case (Cons head tail)
  show ?case
  proof (cases b)
    case (Leaf v0 a s)
    with Cons.prems show ?thesis
      by (simp add: deleteImpl_Leaf)
  next
    case b: (Branch cs a s n)
    show ?thesis
    proof (cases q)
      case Nil
      with Cons.prems isLeaf_deleteImpl [of b "head # tail"] b show ?thesis
        by simp
    next
      case q: (Cons h' t')
      show ?thesis
      proof (cases "map_get cs head")
        case None
        with Cons.prems show ?thesis
          by (simp add: b deleteImpl_no_child del: deleteImpl.simps)
      next
        case (Some child)
        show ?thesis
        proof (cases tail)
          case Nil
          with Some Cons.prems show ?thesis
            by (cases "h' = head")
              (auto simp: b q map_get_delete_same map_get_delete_other split: sum.splits option.splits)
        next
          case tl: (Cons t ts)
          have snd_eq: "node_at (snd (deleteImpl b (head # tail))) q =
              (if h' = head then node_at (snd (deleteImpl child tail)) t' else node_at b q)"
            unfolding b tl deleteImpl_step [OF Some]
            by (auto simp: q map_get_set_same map_get_set_other Some
                split: prod.splits sum.splits option.splits)
          show ?thesis
          proof (cases "h' = head")
            case True
            have eq: "node_at b q = node_at child t'"
              by (simp add: b q True Some)
            from Cons.prems snd_eq True have "node_at (snd (deleteImpl child tail)) t' = Inr (Some (Leaf x a0 s0))"
              by simp
            from Cons.IH [OF this] eq show ?thesis by simp
          next
            case False
            with snd_eq Cons.prems show ?thesis
              by simp
          qed
        qed
      qed
    qed
  qed
qed

lemma delete_all_leaf_at:
  "node_at (delete_all r ks) q = Inr (Some (Leaf x a0 s0)) \<Longrightarrow> node_at r q = Inr (Some (Leaf x a0 s0))"
proof (induction ks arbitrary: r)
  case Nil
  then show ?case by (simp add: delete_all_def)
next
  case (Cons k ks)
  from Cons.prems have "node_at (delete_all (snd (deleteImpl r k)) ks) q = Inr (Some (Leaf x a0 s0))"
    by (simp add: delete_all_Cons)
  from Cons.IH [OF this] show ?case
    by (rule deleteImpl_leaf_at)
qed

lemma delete_all_error_before:
  "node_at (delete_all r ks) q = Inl TypeError \<Longrightarrow> node_at r q = Inl TypeError"
proof (induction ks arbitrary: r)
  case Nil
  then show ?case by (simp add: delete_all_def)
next
  case (Cons k ks)
  from Cons.prems have "node_at (delete_all (snd (deleteImpl r k)) ks) q = Inl TypeError"
    by (simp add: delete_all_Cons)
  from Cons.IH [OF this] show ?case
    by (rule deleteImpl_error_before)
qed

lemma delete_all_remaining:
  "node_at (delete_all r ks) q = Inr (Some n') \<Longrightarrow>
     \<exists>n. node_at r q = Inr (Some n) \<and> atime_of n = atime_of n' \<and> isLeaf n = isLeaf n'"
proof (induction ks arbitrary: r)
  case Nil
  then show ?case by (simp add: delete_all_def)
next
  case (Cons k ks)
  from Cons.prems have "node_at (delete_all (snd (deleteImpl r k)) ks) q = Inr (Some n')"
    by (simp add: delete_all_Cons)
  from Cons.IH [OF this] obtain m where m: "node_at (snd (deleteImpl r k)) q = Inr (Some m)"
    "atime_of m = atime_of n'" "isLeaf m = isLeaf n'"
    by auto
  from deleteImpl_remaining [OF m(1)] m(2,3) show ?case
    by auto
qed

text \<open>The trie after the eviction loop: the evicted units deleted, one after the other.\<close>

lemma prune_loop_delete_all:
  "prune_loop cap r us = (res, r') \<Longrightarrow> \<exists>ks. r' = delete_all r ks \<and> (\<forall>pruned. res = Inr pruned \<longrightarrow> ks = map fst pruned)"
proof (induction us arbitrary: r res r')
  case Nil
  then show ?case by (auto simp: delete_all_def intro: exI [of _ "[]"])
next
  case (Cons u us)
  obtain key val t sz where u: "u = (key, val, t, sz)"
    by (cases u)
  show ?case
  proof (cases "size_of r \<le> cap")
    case True
    with Cons.prems show ?thesis
      by (auto simp: u delete_all_def intro: exI [of _ "[]"])
  next
    case False
    obtain d r1 where del: "deleteImpl r key = (d, r1)"
      by (cases "deleteImpl r key")
    have r1: "r1 = snd (deleteImpl r key)"
      using del by simp
    show ?thesis
    proof (cases d)
      case (Inl e)
      with Cons.prems False del have "res = Inl e" "r' = r1"
        by (simp_all add: u)
      then show ?thesis
        by (intro exI [of _ "[key]"]) (simp add: delete_all_def r1)
    next
      case (Inr x)
      obtain res2 r2 where rec: "prune_loop cap r1 us = (res2, r2)"
        by (cases "prune_loop cap r1 us")
      from Cons.IH [OF rec] obtain ks where ks: "r2 = delete_all r1 ks"
        "\<forall>pruned. res2 = Inr pruned \<longrightarrow> ks = map fst pruned"
        by auto
      from Cons.prems False del Inr rec have r': "r' = r2"
        and res: "res = (case res2 of Inl e \<Rightarrow> Inl e | Inr pruned \<Rightarrow> Inr ((key, val, sz) # pruned))"
        by (auto simp: u split: sum.splits)
      from ks r' res show ?thesis
        by (intro exI [of _ "key # ks"]) (auto simp: delete_all_Cons r1 split: sum.splits)
    qed
  qed
qed

lemma prune_delete_all:
  "\<exists>ks. root (snd (prune opts c now)) = delete_all (root c) ks
     \<and> (\<forall>pruned. fst (prune opts c now) = Inr pruned \<longrightarrow> ks = map fst pruned)"
proof (cases "capacity opts")
  case None
  then show ?thesis
    by (intro exI [of _ "[]"]) (simp add: prune_def delete_all_def)
next
  case (Some cap)
  show ?thesis
  proof (cases "cache_size c \<le> int cap")
    case True
    with Some show ?thesis
      by (intro exI [of _ "[]"]) (simp add: prune_def delete_all_def cache_size_def)
  next
    case False
    let ?us = "sort_key (\<lambda>(key, val, t, sz). t) (flatten (pruneDepth opts) (root c) [])"
    obtain res r' where pl: "prune_loop (int cap) (root c) ?us = (res, r')"
      by (cases "prune_loop (int cap) (root c) ?us")
    from False Some pl have "prune opts c now = (res, c\<lparr>lastPruneAt := now, root := r'\<rparr>)"
      by (simp add: prune_def cache_size_def Let_def)
    with prune_loop_delete_all [OF pl] show ?thesis
      by auto
  qed
qed

lemma autoPrune_check_delete_all:
  "\<exists>ks. root (snd (autoPrune_check opts c now)) = delete_all (root c) ks
     \<and> (\<not> shouldAutoPrune opts c now \<longrightarrow> ks = [])
     \<and> (\<forall>pruned. shouldAutoPrune opts c now \<and> fst (prune opts c now) = Inr pruned \<longrightarrow> ks = map fst pruned)"
proof (cases "shouldAutoPrune opts c now")
  case True
  then have "root (snd (autoPrune_check opts c now)) = root (snd (prune opts c now))"
    by (simp add: autoPrune_check_def split: prod.splits sum.splits)
  with prune_delete_all [of opts c now] True show ?thesis
    by auto
next
  case False
  then show ?thesis
    by (intro exI [of _ "[]"]) (simp add: autoPrune_check_def delete_all_def)
qed

text \<open>A deletion at a key that is not a prefix of \<open>key\<close> leaves the Leaf at \<open>key\<close>.\<close>

lemma deleteImpl_keeps_leaf:
  "node_at b key = Inr (Some (Leaf x a0 s0)) \<Longrightarrow> take (length k') key \<noteq> k' \<Longrightarrow>
     node_at (snd (deleteImpl b k')) key = Inr (Some (Leaf x a0 s0))"
proof (induction k' arbitrary: b key)
  case Nil
  then show ?case by simp
next
  case (Cons head tail)
  show ?case
  proof (cases key)
    case Nil
    with Cons.prems(1) have "b = Leaf x a0 s0" by simp
    with Nil show ?thesis by (simp add: deleteImpl_Leaf)
  next
    case key: (Cons h t)
    from Cons.prems(1) key obtain cs a s n c0 where b: "b = Branch cs a s n"
      and c0: "map_get cs h = Some c0" and sub: "node_at c0 t = Inr (Some (Leaf x a0 s0))"
      by (cases b) (auto split: option.splits)
    show ?thesis
    proof (cases "map_get cs head")
      case None
      with Cons.prems(1) show ?thesis
        by (simp add: b deleteImpl_no_child del: deleteImpl.simps)
    next
      case (Some child)
      show ?thesis
      proof (cases tail)
        case Nil
        with Cons.prems(2) key have "h \<noteq> head" by auto
        with Some Nil c0 sub show ?thesis
          by (simp add: b key map_get_delete_other)
      next
        case tl: (Cons t2 ts)
        have snd_eq: "node_at (snd (deleteImpl b (head # tail))) key =
            (if h = head then node_at (snd (deleteImpl child tail)) t else node_at b key)"
          unfolding b tl deleteImpl_step [OF Some]
          by (auto simp: key map_get_set_same map_get_set_other Some
              split: prod.splits sum.splits option.splits)
        show ?thesis
        proof (cases "h = head")
          case True
          with c0 Some have cc: "c0 = child" by simp
          from Cons.prems(2) key True have "take (length tail) t \<noteq> tail" by simp
          from Cons.IH [OF sub [unfolded cc] this] snd_eq True show ?thesis by simp
        next
          case False
          with snd_eq Cons.prems(1) show ?thesis by simp
        qed
      qed
    qed
  qed
qed

lemma delete_all_keeps_leaf:
  "node_at r key = Inr (Some (Leaf x a0 s0)) \<Longrightarrow> \<forall>k' \<in> set ks. take (length k') key \<noteq> k' \<Longrightarrow>
     node_at (delete_all r ks) key = Inr (Some (Leaf x a0 s0))"
proof (induction ks arbitrary: r)
  case Nil
  then show ?case by (simp add: delete_all_def)
next
  case (Cons k ks)
  from Cons.prems have "node_at (snd (deleteImpl r k)) key = Inr (Some (Leaf x a0 s0))"
    by (intro deleteImpl_keeps_leaf) simp_all
  from Cons.IH [OF this] Cons.prems(2) show ?case
    by (simp add: delete_all_Cons)
qed

lemma sixty_cache_eq:
  "sixty_cache = \<lparr>root = Branch [(1, Leaf 60 1 60)] 1 60 1, lastPruneAt = 0\<rparr>"
  by (simp add: sixty_cache_def bounded_options_def insertOne_def autoPrune_check_def
      shouldAutoPrune_def empty_cache_def cache_size_def)

lemma atime_at_eq: "atime c q = atime_at (root c) q"
  by (simp add: atime_eq atime_at_def)

lemma cache_sizeof_eq:
  "cache_sizeof c q =
     (case node_at (root c) q of
        Inl e \<Rightarrow> Inl e
      | Inr None \<Rightarrow> Inr None
      | Inr (Some n) \<Rightarrow> Inr (Some (size_of n)))"
  by (simp add: cache_sizeof_def partial_sizeof_def rootPartial_def)

text \<open>What is at a key where a Leaf was, after deletions.\<close>

lemma delete_all_leaf_cases:
  assumes "node_at r key = Inr (Some (Leaf x a0 s0))"
  shows "node_at (delete_all r ks) key = Inr None
    \<or> node_at (delete_all r ks) key = Inr (Some (Leaf x a0 s0))"
proof (cases "node_at (delete_all r ks) key")
  case (Inl e)
  then have "node_at (delete_all r ks) key = Inl TypeError"
    by (cases e) simp
  from delete_all_error_before [OF this] assms show ?thesis by simp
next
  case (Inr y)
  show ?thesis
  proof (cases y)
    case None
    with Inr show ?thesis by simp
  next
    case (Some n')
    from delete_all_remaining [of r ks key n'] Inr Some assms have "isLeaf n'"
      by auto
    then obtain x' a' s' where n': "n' = Leaf x' a' s'"
      by (cases n') auto
    from delete_all_leaf_at [of r ks key x' a' s'] Inr Some n' assms show ?thesis
      by simp
  qed
qed

lemma get_after_insertOne:
  assumes "node_at (snd (insertImpl sizeof (root c) key v now replace)) key = Inr (Some (Leaf x a0 s0))"
  shows "fst (get (snd (insertOne opts sizeof c key v replace now)) key u now') =
      (if cache_sizeof (snd (insertOne opts sizeof c key v replace now)) key = Inr None
       then Inr None else Inr (Some x))"
    and "cache_sizeof (snd (insertOne opts sizeof c key v replace now)) key = Inr None
      \<or> cache_sizeof (snd (insertOne opts sizeof c key v replace now)) key = Inr (Some s0)"
proof -
  let ?c1 = "c\<lparr>root := snd (insertImpl sizeof (root c) key v now replace)\<rparr>"
  from autoPrune_check_delete_all [of opts ?c1 now] obtain ks where
    ks: "root (snd (insertOne opts sizeof c key v replace now)) = delete_all (root ?c1) ks"
    by (auto simp: snd_insertOne)
  from delete_all_leaf_cases [of "root ?c1" key x a0 s0 ks] assms
  have cases: "node_at (delete_all (root ?c1) ks) key = Inr None
      \<or> node_at (delete_all (root ?c1) ks) key = Inr (Some (Leaf x a0 s0))"
    by simp
  then show "fst (get (snd (insertOne opts sizeof c key v replace now)) key u now') =
      (if cache_sizeof (snd (insertOne opts sizeof c key v replace now)) key = Inr None
       then Inr None else Inr (Some x))"
    by (auto simp: get_eq cache_sizeof_eq ks)
  from cases show "cache_sizeof (snd (insertOne opts sizeof c key v replace now)) key = Inr None
      \<or> cache_sizeof (snd (insertOne opts sizeof c key v replace now)) key = Inr (Some s0)"
    by (auto simp: cache_sizeof_eq ks)
qed

lemma get_after_insertOne_kept:
  assumes "node_at (snd (insertImpl sizeof (root c) key v now replace)) key = Inr (Some (Leaf x a0 s0))"
    and "fst (prune opts (c\<lparr>root := snd (insertImpl sizeof (root c) key v now replace)\<rparr>) now) = Inr pruned"
    and "\<forall>e \<in> set pruned. take (length (fst e)) key \<noteq> fst e"
  shows "fst (get (snd (insertOne opts sizeof c key v replace now)) key u now') = Inr (Some x)"
proof -
  let ?c1 = "c\<lparr>root := snd (insertImpl sizeof (root c) key v now replace)\<rparr>"
  from autoPrune_check_delete_all [of opts ?c1 now] assms(2) obtain ks where
    ks: "root (snd (insertOne opts sizeof c key v replace now)) = delete_all (root ?c1) ks"
    and "ks = [] \<or> ks = map fst pruned"
    by (auto simp: snd_insertOne)
  with assms(3) have "\<forall>k' \<in> set ks. take (length k') key \<noteq> k'"
    by auto
  from delete_all_keeps_leaf [of "root ?c1" key x a0 s0 ks] assms(1) this
  show ?thesis
    by (simp add: get_eq ks)
qed

subsection \<open>Round trips\<close>

text \<open>
  Claim C3, as stated, fails when the eviction check of the insert takes the entry: with
  capacity 100, a value of 150 bytes is inserted (the call returns 150) and evicted by the
  eviction check of the same call; \<^verbatim>\<open>get\<close> then finds nothing.
\<close>

theorem insert_then_get_after_eviction:
  "fst (insertOne bounded_options (\<lambda>v. v) (empty_cache 0) [1::nat] (150::nat) True 1) = Inr (Some 150)
    \<and> fst (get (snd (insertOne bounded_options (\<lambda>v. v) (empty_cache 0) [1::nat] (150::nat) True 1))
          [1] True 2) = Inr None"
  by (simp add: cache_ops shouldAutoPrune_def prune_def bounded_options_def empty_cache_def Let_def)

text \<open>
  Claim C3, amended. Let the state have a Branch as root and the size invariant, as every
  state that a run of public calls reaches (\<open>root_is_Branch\<close>, \<open>size_inv_run\<close>), and let the
  walk along the key not run through a Leaf. For a non-empty key, \<^verbatim>\<open>insertOne(k, v)\<close>
  returns the size of \<open>v\<close>, and \<^verbatim>\<open>get(k)\<close> then returns \<open>v\<close> unless the eviction check of
  that call has evicted the entry, that is unless \<^verbatim>\<open>sizeof(k)\<close> is undefined after the
  call; \<^verbatim>\<open>get(k)\<close> then returns absent. The entry is not evicted when the check does not
  fire, nor when no unit that \<^verbatim>\<open>prune()\<close> evicts from the state after the insertion has
  \<open>k\<close> or a prefix of \<open>k\<close> as its key. For every key, \<^verbatim>\<open>deleteOne(k)\<close> returns without an
  exception and \<^verbatim>\<open>get(k)\<close> then returns absent.
\<close>

theorem insert_get_delete_roundtrip:
  assumes "isBranch (root c)" and "size_inv (root c)" and "node_at (root c) key \<noteq> Inl TypeError"
  shows "(key \<noteq> [] \<longrightarrow>
        fst (insertOne opts sizeof c key v True now) = Inr (Some (int (sizeof v)))
      \<and> fst (get (snd (insertOne opts sizeof c key v True now)) key u now') =
          (if cache_sizeof (snd (insertOne opts sizeof c key v True now)) key = Inr None
           then Inr None else Inr (Some v)))
    \<and> (key \<noteq> []
        \<and> \<not> shouldAutoPrune opts (c\<lparr>root := snd (insertImpl sizeof (root c) key v now True)\<rparr>) now
      \<longrightarrow> fst (get (snd (insertOne opts sizeof c key v True now)) key u now') = Inr (Some v))
    \<and> (key \<noteq> []
        \<and> fst (prune opts (c\<lparr>root := snd (insertImpl sizeof (root c) key v now True)\<rparr>) now) = Inr pruned
        \<and> (\<forall>e \<in> set pruned. take (length (fst e)) key \<noteq> fst e)
      \<longrightarrow> fst (get (snd (insertOne opts sizeof c key v True now)) key u now') = Inr (Some v))
    \<and> fst (deleteOne c key) = None
    \<and> fst (get (snd (deleteOne c key)) key u now') = Inr None"
proof (intro conjI impI; (elim conjE)?)
  assume key: "key \<noteq> []"
  from insertImpl_stores [OF key assms(3), of sizeof v now]
  have stored: "node_at (snd (insertImpl sizeof (root c) key v now True)) key =
      Inr (Some (Leaf v now (int (sizeof v))))" .
  from insertImpl_result [OF key assms(3), of sizeof v now]
  show "fst (insertOne opts sizeof c key v True now) = Inr (Some (int (sizeof v)))"
    by (auto simp: fst_insertOne [OF assms(2)])
  from get_after_insertOne(1) [OF stored]
  show "fst (get (snd (insertOne opts sizeof c key v True now)) key u now') =
      (if cache_sizeof (snd (insertOne opts sizeof c key v True now)) key = Inr None
       then Inr None else Inr (Some v))" .
next
  assume key: "key \<noteq> []"
    and quiet: "\<not> shouldAutoPrune opts (c\<lparr>root := snd (insertImpl sizeof (root c) key v now True)\<rparr>) now"
  from insertImpl_stores [OF key assms(3), of sizeof v now] quiet
  show "fst (get (snd (insertOne opts sizeof c key v True now)) key u now') = Inr (Some v)"
    by (simp add: snd_insertOne autoPrune_check_def get_eq)
next
  assume key: "key \<noteq> []"
    and pr: "fst (prune opts (c\<lparr>root := snd (insertImpl sizeof (root c) key v now True)\<rparr>) now) = Inr pruned"
    and other: "\<forall>e \<in> set pruned. take (length (fst e)) key \<noteq> fst e"
  from insertImpl_stores [OF key assms(3), of sizeof v now]
  have stored: "node_at (snd (insertImpl sizeof (root c) key v now True)) key =
      Inr (Some (Leaf v now (int (sizeof v))))" .
  from get_after_insertOne_kept [OF stored pr other]
  show "fst (get (snd (insertOne opts sizeof c key v True now)) key u now') = Inr (Some v)" .
next
  obtain d r' where del: "deleteImpl (root c) key = (d, r')"
    by (cases "deleteImpl (root c) key")
  from deleteImpl_no_error [OF assms(3)] del obtain x where d: "d = Inr x"
    by auto
  show "fst (deleteOne c key) = None"
    by (simp add: deleteOne_def del d)
  have state: "snd (deleteOne c key) = c\<lparr>root := r'\<rparr>"
    by (simp add: deleteOne_def del d)
  show "fst (get (snd (deleteOne c key)) key u now') = Inr None"
  proof (cases key)
    case Nil
    from assms(1) obtain cs a s n where "root c = Branch cs a s n"
      by (cases "root c") auto
    with Nil show ?thesis
      by (simp add: deleteOne_def get_eq)
  next
    case (Cons head tail)
    then have "key \<noteq> []" by simp
    from deleteImpl_removes [OF this assms(3)] del have "node_at r' key = Inr None"
      by simp
    then show ?thesis
      by (simp add: state get_eq)
  qed
qed

theorem insert_get_delete_roundtrip_witness:
  "isBranch (root sixty_cache) \<and> size_inv (root sixty_cache)
    \<and> node_at (root sixty_cache) [2] \<noteq> Inl TypeError \<and> node_at (root sixty_cache) [1] \<noteq> Inl TypeError
    \<and> [2::nat] \<noteq> [] \<and> [1::nat] \<noteq> []
    \<and> shouldAutoPrune bounded_options
        (sixty_cache\<lparr>root := snd (insertImpl (\<lambda>v. v) (root sixty_cache) [2] 70 2 True)\<rparr>) 2
    \<and> fst (prune bounded_options
        (sixty_cache\<lparr>root := snd (insertImpl (\<lambda>v. v) (root sixty_cache) [2] 70 2 True)\<rparr>) 2)
        = Inr [([1], Val 60, 60)]
    \<and> take (length [1::nat]) [2::nat] \<noteq> [1]
    \<and> fst (insertOne bounded_options (\<lambda>v. v) sixty_cache [2] 70 True 2) = Inr (Some 70)
    \<and> fst (get (snd (insertOne bounded_options (\<lambda>v. v) sixty_cache [2] 70 True 2)) [2] True 3) = Inr (Some 70)
    \<and> \<not> shouldAutoPrune bounded_options
        (sixty_cache\<lparr>root := snd (insertImpl (\<lambda>v. v) (root sixty_cache) [2] 30 2 True)\<rparr>) 2
    \<and> fst (get (snd (insertOne bounded_options (\<lambda>v. v) sixty_cache [2] 30 True 2)) [2] True 3) = Inr (Some 30)
    \<and> fst (get sixty_cache [1] False 3) = Inr (Some 60)
    \<and> fst (deleteOne sixty_cache [1]) = None
    \<and> fst (get (snd (deleteOne sixty_cache [1])) [1] True 3) = Inr None"
proof -
  have a: "isBranch (root sixty_cache)" and b: "size_inv (root sixty_cache)"
    and c2: "node_at (root sixty_cache) [2] \<noteq> Inl TypeError"
    and c1: "node_at (root sixty_cache) [1] \<noteq> Inl TypeError"
    by (simp_all add: sixty_cache_eq)
  have k: "[2::nat] \<noteq> []" "[1::nat] \<noteq> []"
    by simp_all
  have fires: "shouldAutoPrune bounded_options
        (sixty_cache\<lparr>root := snd (insertImpl (\<lambda>v. v) (root sixty_cache) [2] 70 2 True)\<rparr>) 2"
    and pruned: "fst (prune bounded_options
        (sixty_cache\<lparr>root := snd (insertImpl (\<lambda>v. v) (root sixty_cache) [2] 70 2 True)\<rparr>) 2)
        = Inr [([1], Val 60, 60)]"
    and quiet: "\<not> shouldAutoPrune bounded_options
        (sixty_cache\<lparr>root := snd (insertImpl (\<lambda>v. v) (root sixty_cache) [2] 30 2 True)\<rparr>) 2"
    and before: "fst (get sixty_cache [1] False 3) = Inr (Some 60)"
    by (simp_all add: sixty_cache_eq shouldAutoPrune_def prune_def bounded_options_def cache_size_def
        get_eq Let_def)
  have other: "\<forall>e \<in> set [([1::nat], Val (60::nat), 60::int)]. take (length (fst e)) [2] \<noteq> fst e"
    by simp
  from insert_get_delete_roundtrip [OF a b c2,
      of bounded_options "\<lambda>v. v" 70 2 True 3 "[([1], Val 60, 60)]"] k pruned other
  have g1: "fst (insertOne bounded_options (\<lambda>v. v) sixty_cache [2] 70 True 2) = Inr (Some (int 70))"
    and g2: "fst (get (snd (insertOne bounded_options (\<lambda>v. v) sixty_cache [2] 70 True 2)) [2] True 3)
        = Inr (Some 70)"
    by blast+
  from insert_get_delete_roundtrip [OF a b c2, of bounded_options "\<lambda>v. v" 30 2 True 3] k quiet
  have g3: "fst (get (snd (insertOne bounded_options (\<lambda>v. v) sixty_cache [2] 30 True 2)) [2] True 3)
        = Inr (Some 30)"
    by blast
  from insert_get_delete_roundtrip [OF a b c1, of bounded_options "\<lambda>v. v" 30 2 True 3]
  have g4: "fst (deleteOne sixty_cache [1]) = None"
    and g5: "fst (get (snd (deleteOne sixty_cache [1])) [1] True 3) = Inr None"
    by blast+
  from a b c1 c2 k fires pruned other quiet before g1 g2 g3 g4 g5 show ?thesis
    by simp
qed

subsection \<open>\<^verbatim>\<open>insertOne\<close> with \<^verbatim>\<open>replace = false\<close> on a present key\<close>

text \<open>
  \<^verbatim>\<open>insertImpl\<close> with \<^verbatim>\<open>replace = false\<close> on a present Leaf: the timestamps that it sets,
  and the Leaves after it.
\<close>

lemma insertImpl_keep_atime:
  "key \<noteq> [] \<Longrightarrow> node_at b key = Inr (Some (Leaf v0 a0 s0)) \<Longrightarrow>
     atime_at (snd (insertImpl sizeof b key val date False)) q =
       (if Suc (length q) < length key \<and> take (length q) key = q then Inr (Some date)
        else atime_at b q)"
proof (induction key arbitrary: b q)
  case Nil
  then show ?case by simp
next
  case (Cons head tail)
  from Cons.prems(2) obtain cs a s n child where b: "b = Branch cs a s n"
    and child: "map_get cs head = Some child" and sub: "node_at child tail = Inr (Some (Leaf v0 a0 s0))"
    by (cases b) (auto split: option.splits)
  show ?case
  proof (cases tail)
    case Nil
    with child sub show ?thesis by (simp add: b Let_def)
  next
    case tl: (Cons t ts)
    have con: "child_or_new cs head date = child"
      by (simp add: child_or_new_def child)
    from insertImpl_keep [OF _ sub, of sizeof val date] tl
    have res: "fst (insertImpl sizeof child (t # ts) val date False) = Inr (None, 0, False)"
      by simp
    have snd_eq: "snd (insertImpl sizeof b (head # tail) val date False) =
        Branch (map_set cs head (snd (insertImpl sizeof child tail val date False))) date s n"
      unfolding b tl insertImpl_step con using res
      by (auto split: prod.splits sum.splits)
    have IH: "atime_at (snd (insertImpl sizeof child tail val date False)) q' =
        (if Suc (length q') < length tail \<and> take (length q') tail = q' then Inr (Some date)
         else atime_at child q')" for q'
      using Cons.IH [OF _ sub, of q'] tl by simp
    show ?thesis
    proof (cases q)
      case Nil
      then show ?thesis
        unfolding snd_eq by (simp add: atime_at_def tl)
    next
      case q: (Cons h' t')
      show ?thesis
      proof (cases "h' = head")
        case True
        have "atime_at (snd (insertImpl sizeof b (head # tail) val date False)) q =
            atime_at (snd (insertImpl sizeof child tail val date False)) t'"
          unfolding snd_eq by (simp add: atime_at_def q True map_get_set_same)
        moreover have "atime_at b q = atime_at child t'"
          by (simp add: atime_at_def b q True child)
        ultimately show ?thesis
          using IH [of t'] by (simp add: q True)
      next
        case False
        have "atime_at (snd (insertImpl sizeof b (head # tail) val date False)) q = atime_at b q"
          unfolding snd_eq using False by (simp add: atime_at_def q b map_get_set_other)
        with False show ?thesis
          by (simp add: q)
      qed
    qed
  qed
qed

lemma insertImpl_keep_leaves:
  "key \<noteq> [] \<Longrightarrow> node_at b key = Inr (Some (Leaf v0 a0 s0)) \<Longrightarrow>
     node_at (snd (insertImpl sizeof b key val date False)) q = Inr (Some (Leaf x a1 s1))
       \<longleftrightarrow> node_at b q = Inr (Some (Leaf x a1 s1))"
proof (induction key arbitrary: b q)
  case Nil
  then show ?case by simp
next
  case (Cons head tail)
  from Cons.prems(2) obtain cs a s n child where b: "b = Branch cs a s n"
    and child: "map_get cs head = Some child" and sub: "node_at child tail = Inr (Some (Leaf v0 a0 s0))"
    by (cases b) (auto split: option.splits)
  show ?case
  proof (cases tail)
    case Nil
    with child sub show ?thesis by (simp add: b Let_def)
  next
    case tl: (Cons t ts)
    have con: "child_or_new cs head date = child"
      by (simp add: child_or_new_def child)
    from insertImpl_keep [OF _ sub, of sizeof val date] tl
    have res: "fst (insertImpl sizeof child (t # ts) val date False) = Inr (None, 0, False)"
      by simp
    have snd_eq: "snd (insertImpl sizeof b (head # tail) val date False) =
        Branch (map_set cs head (snd (insertImpl sizeof child tail val date False))) date s n"
      unfolding b tl insertImpl_step con using res
      by (auto split: prod.splits sum.splits)
    show ?thesis
    proof (cases q)
      case Nil
      then show ?thesis
        unfolding snd_eq by (simp add: b)
    next
      case q: (Cons h' t')
      show ?thesis
      proof (cases "h' = head")
        case True
        have "node_at (snd (insertImpl sizeof b (head # tail) val date False)) q =
            node_at (snd (insertImpl sizeof child tail val date False)) t'"
          unfolding snd_eq by (simp add: q True map_get_set_same)
        moreover have "node_at b q = node_at child t'"
          by (simp add: b q True child)
        ultimately show ?thesis
          using Cons.IH [OF _ sub, of t'] tl by simp
      next
        case False
        have "node_at (snd (insertImpl sizeof b (head # tail) val date False)) q = node_at b q"
          unfolding snd_eq using False by (simp add: q b map_get_set_other)
        then show ?thesis by simp
      qed
    qed
  qed
qed

text \<open>The eviction check stores no value and alters none.\<close>

lemma get_after_autoPrune_check:
  assumes "fst (get (snd (autoPrune_check opts c now)) q u now') = Inr (Some x)"
  shows "fst (get c q u now') = Inr (Some x)"
proof -
  from autoPrune_check_delete_all [of opts c now] obtain ks where
    ks: "root (snd (autoPrune_check opts c now)) = delete_all (root c) ks"
    by auto
  from assms obtain a s where "node_at (delete_all (root c) ks) q = Inr (Some (Leaf x a s))"
    by (auto simp: get_eq ks split: sum.splits option.splits node.splits)
  from delete_all_leaf_at [OF this] show ?thesis
    by (simp add: get_eq)
qed

text \<open>
  Claim C7, as stated, fails when an eviction is pending: in the cache over capacity
  (130 of 100 bytes), \<^verbatim>\<open>insertOne([1], 99, false)\<close> after the interval returns null and
  its eviction check evicts the value under (1); the size drops to 70.
\<close>

theorem insert_no_replace_evicts:
  "fst (get debounced_cache [1] False 2000) = Inr (Some 60)
    \<and> cache_size debounced_cache = 130
    \<and> fst (insertOne debounced_options (\<lambda>v. v) debounced_cache [1] 99 False 2000) = Inr None
    \<and> fst (get (snd (insertOne debounced_options (\<lambda>v. v) debounced_cache [1] 99 False 2000))
          [1] False 2001) = Inr None
    \<and> cache_size (snd (insertOne debounced_options (\<lambda>v. v) debounced_cache [1] 99 False 2000)) = 70"
  by (simp add: debounced_cache_eq cache_ops shouldAutoPrune_def prune_def debounced_options_def Let_def)

text \<open>
  Claim C7, amended. Let a Leaf exist at the non-empty key, in a state with the size
  invariant, as every state that a run of public calls reaches. \<^verbatim>\<open>insertOne(k, v, false)\<close>
  returns null and stores or alters no value: a value that \<^verbatim>\<open>get\<close> finds at a key after
  the call is the value that it found there before, and \<^verbatim>\<open>get(k)\<close> returns the first value
  unless the eviction check of the call has evicted the entry; \<^verbatim>\<open>sizeof(k)\<close> is then
  undefined, and the size that it was otherwise. When the eviction check does not fire
  (it reads the size and \<^verbatim>\<open>lastPruneAt\<close>, which the insertion has not changed), the
  call changes nothing but the access timestamps of the Branches above the Leaf's parent,
  which become the time of the call: the trie without its timestamps, \<^verbatim>\<open>lastPruneAt\<close>
  and the size of the cache are unchanged, and every other node, the Leaf and its parent
  among them, has the timestamp that it had.
\<close>

theorem insert_no_replace_keeps:
  assumes "key \<noteq> []" and "node_at (root c) key = Inr (Some (Leaf v0 a0 s0))" and "size_inv (root c)"
  shows "fst (insertOne opts sizeof c key v False now) = Inr None
    \<and> fst (get (snd (insertOne opts sizeof c key v False now)) key u now') =
        (if cache_sizeof (snd (insertOne opts sizeof c key v False now)) key = Inr None
         then Inr None else Inr (Some v0))
    \<and> (cache_sizeof (snd (insertOne opts sizeof c key v False now)) key = Inr None
        \<or> cache_sizeof (snd (insertOne opts sizeof c key v False now)) key = Inr (Some s0))
    \<and> (fst (get (snd (insertOne opts sizeof c key v False now)) q u now') = Inr (Some x)
        \<longrightarrow> fst (get c q u now') = Inr (Some x))
    \<and> (\<not> shouldAutoPrune opts c now \<longrightarrow>
        forget_atime (root (snd (insertOne opts sizeof c key v False now))) = forget_atime (root c)
        \<and> lastPruneAt (snd (insertOne opts sizeof c key v False now)) = lastPruneAt c
        \<and> atime (snd (insertOne opts sizeof c key v False now)) q =
            (if Suc (length q) < length key \<and> take (length q) key = q then Inr (Some now)
             else atime c q)
        \<and> fst (get (snd (insertOne opts sizeof c key v False now)) key u now') = Inr (Some v0)
        \<and> cache_sizeof (snd (insertOne opts sizeof c key v False now)) key = Inr (Some s0)
        \<and> cache_size (snd (insertOne opts sizeof c key v False now)) = cache_size c)"
proof -
  let ?r1 = "snd (insertImpl sizeof (root c) key v now False)"
  from insertImpl_keep [OF assms(1,2), of sizeof v now]
  have keep: "fst (insertImpl sizeof (root c) key v now False) = Inr (None, 0, False)"
    "forget_atime ?r1 = forget_atime (root c)"
    "size_of ?r1 = size_of (root c)" "node_at ?r1 key = Inr (Some (Leaf v0 a0 s0))"
    by simp_all
  show ?thesis
  proof (intro conjI impI)
    show "fst (insertOne opts sizeof c key v False now) = Inr None"
      by (simp add: fst_insertOne [OF assms(3)] keep(1))
    show "fst (get (snd (insertOne opts sizeof c key v False now)) key u now') =
        (if cache_sizeof (snd (insertOne opts sizeof c key v False now)) key = Inr None
         then Inr None else Inr (Some v0))"
      by (rule get_after_insertOne(1) [OF keep(4)])
    show "cache_sizeof (snd (insertOne opts sizeof c key v False now)) key = Inr None
        \<or> cache_sizeof (snd (insertOne opts sizeof c key v False now)) key = Inr (Some s0)"
      by (rule get_after_insertOne(2) [OF keep(4)])
    show "fst (get c q u now') = Inr (Some x)"
      if "fst (get (snd (insertOne opts sizeof c key v False now)) q u now') = Inr (Some x)"
    proof -
      from that have "fst (get (c\<lparr>root := ?r1\<rparr>) q u now') = Inr (Some x)"
        unfolding snd_insertOne by (rule get_after_autoPrune_check)
      then obtain a1 s1 where "node_at ?r1 q = Inr (Some (Leaf x a1 s1))"
        by (auto simp: get_eq split: sum.splits option.splits node.splits)
      with insertImpl_keep_leaves [OF assms(1,2), of sizeof v now q x a1 s1]
      show ?thesis
        by (simp add: get_eq)
    qed
    assume quiet: "\<not> shouldAutoPrune opts c now"
    from quiet keep(3) have "\<not> shouldAutoPrune opts (c\<lparr>root := ?r1\<rparr>) now"
      by (auto simp: shouldAutoPrune_def cache_size_def split: option.splits if_splits)
    then have state: "snd (insertOne opts sizeof c key v False now) = c\<lparr>root := ?r1\<rparr>"
      by (simp add: snd_insertOne autoPrune_check_def)
    show "forget_atime (root (snd (insertOne opts sizeof c key v False now))) = forget_atime (root c)"
      by (simp add: state keep(2))
    show "lastPruneAt (snd (insertOne opts sizeof c key v False now)) = lastPruneAt c"
      by (simp add: state)
    show "atime (snd (insertOne opts sizeof c key v False now)) q =
            (if Suc (length q) < length key \<and> take (length q) key = q then Inr (Some now)
             else atime c q)"
      using insertImpl_keep_atime [OF assms(1,2), of sizeof v now q]
      by (simp add: state atime_at_eq)
    show "fst (get (snd (insertOne opts sizeof c key v False now)) key u now') = Inr (Some v0)"
      by (simp add: state get_eq keep(4))
    show "cache_sizeof (snd (insertOne opts sizeof c key v False now)) key = Inr (Some s0)"
      by (simp add: state cache_sizeof_eq keep(4))
    show "cache_size (snd (insertOne opts sizeof c key v False now)) = cache_size c"
      by (simp add: state cache_size_def keep(3))
  qed
qed

theorem insert_no_replace_keeps_witness:
  "[1, 2::nat] \<noteq> [] \<and> node_at (root view_cache) [1, 2] = Inr (Some (Leaf 40 1 40))
    \<and> size_inv (root view_cache)
    \<and> \<not> shouldAutoPrune bounded_options view_cache 5
    \<and> fst (insertOne bounded_options (\<lambda>v. v) view_cache [1, 2] 99 False 5) = Inr None
    \<and> fst (get (snd (insertOne bounded_options (\<lambda>v. v) view_cache [1, 2] 99 False 5)) [1, 2] True 6)
        = Inr (Some 40)
    \<and> fst (get view_cache [1, 2] True 6) = Inr (Some 40)
    \<and> atime view_cache [] = Inr (Some 1)
    \<and> atime (snd (insertOne bounded_options (\<lambda>v. v) view_cache [1, 2] 99 False 5)) [] = Inr (Some 5)
    \<and> atime (snd (insertOne bounded_options (\<lambda>v. v) view_cache [1, 2] 99 False 5)) [1] = Inr (Some 1)
    \<and> atime (snd (insertOne bounded_options (\<lambda>v. v) view_cache [1, 2] 99 False 5)) [1, 2] = Inr (Some 1)
    \<and> [1::nat] \<noteq> [] \<and> node_at (root debounced_cache) [1] = Inr (Some (Leaf 60 1 60))
    \<and> size_inv (root debounced_cache)
    \<and> shouldAutoPrune debounced_options debounced_cache 2000
    \<and> fst (insertOne debounced_options (\<lambda>v. v) debounced_cache [1] 99 False 2000) = Inr None
    \<and> cache_sizeof (snd (insertOne debounced_options (\<lambda>v. v) debounced_cache [1] 99 False 2000)) [1]
        = Inr None
    \<and> fst (get (snd (insertOne debounced_options (\<lambda>v. v) debounced_cache [1] 99 False 2000))
          [1] True 2001) = Inr None"
proof -
  have a: "[1, 2::nat] \<noteq> []" and a': "[1::nat] \<noteq> []"
    by simp_all
  have b: "node_at (root view_cache) [1, 2] = Inr (Some (Leaf 40 1 40))"
    and c: "size_inv (root view_cache)"
    and t: "atime view_cache [] = Inr (Some 1)" "atime view_cache [1] = Inr (Some 1)"
      "atime view_cache [1, 2] = Inr (Some 1)"
    by (simp_all add: view_cache_eq atime_eq)
  have d: "\<not> shouldAutoPrune bounded_options view_cache 5"
    by (simp add: shouldAutoPrune_def bounded_options_def view_cache_eq cache_size_def)
  have b': "node_at (root debounced_cache) [1] = Inr (Some (Leaf 60 1 60))"
    and c': "size_inv (root debounced_cache)"
    by (simp_all add: debounced_cache_eq)
  have d': "shouldAutoPrune debounced_options debounced_cache 2000"
    by (simp add: shouldAutoPrune_def debounced_options_def debounced_cache_eq cache_size_def)
  have e': "cache_sizeof (snd (insertOne debounced_options (\<lambda>v. v) debounced_cache [1] 99 False 2000)) [1]
        = Inr None"
    by (simp add: debounced_cache_eq cache_ops shouldAutoPrune_def prune_def debounced_options_def Let_def)
  note inst = insert_no_replace_keeps [OF a b c, where opts = bounded_options and sizeof = "\<lambda>v. v"
      and v = 99 and now = 5 and u = True and now' = 6]
  from inst [where q = "[1, 2]" and x = 40] d
  have g1: "fst (insertOne bounded_options (\<lambda>v. v) view_cache [1, 2] 99 False 5) = Inr None"
    and g2: "fst (get (snd (insertOne bounded_options (\<lambda>v. v) view_cache [1, 2] 99 False 5)) [1, 2] True 6)
        = Inr (Some 40)"
    by blast+
  from inst [where q = "[1, 2]" and x = 40] g2
  have g3: "fst (get view_cache [1, 2] True 6) = Inr (Some 40)"
    by blast
  from inst [where q = "[]" and x = 40] d
  have "atime (snd (insertOne bounded_options (\<lambda>v. v) view_cache [1, 2] 99 False 5)) [] =
      (if Suc (length ([] :: nat list)) < length [1, 2::nat] \<and> take (length ([] :: nat list)) [1, 2::nat] = []
       then Inr (Some 5) else atime view_cache [])"
    by blast
  then have g4: "atime (snd (insertOne bounded_options (\<lambda>v. v) view_cache [1, 2] 99 False 5)) [] = Inr (Some 5)"
    by simp
  from inst [where q = "[1]" and x = 40] d
  have "atime (snd (insertOne bounded_options (\<lambda>v. v) view_cache [1, 2] 99 False 5)) [1] =
      (if Suc (length [1::nat]) < length [1, 2::nat] \<and> take (length [1::nat]) [1, 2::nat] = [1]
       then Inr (Some 5) else atime view_cache [1])"
    by blast
  with t have g5: "atime (snd (insertOne bounded_options (\<lambda>v. v) view_cache [1, 2] 99 False 5)) [1] = Inr (Some 1)"
    by simp
  from inst [where q = "[1, 2]" and x = 40] d
  have "atime (snd (insertOne bounded_options (\<lambda>v. v) view_cache [1, 2] 99 False 5)) [1, 2] =
      (if Suc (length [1, 2::nat]) < length [1, 2::nat] \<and> take (length [1, 2::nat]) [1, 2::nat] = [1, 2]
       then Inr (Some 5) else atime view_cache [1, 2])"
    by blast
  with t have g6: "atime (snd (insertOne bounded_options (\<lambda>v. v) view_cache [1, 2] 99 False 5)) [1, 2] = Inr (Some 1)"
    by simp
  note inst' = insert_no_replace_keeps [OF a' b' c', where opts = debounced_options and sizeof = "\<lambda>v. v"
      and v = 99 and now = 2000 and u = True and now' = 2001 and q = "[1]" and x = 60]
  from inst' have h1: "fst (insertOne debounced_options (\<lambda>v. v) debounced_cache [1] 99 False 2000) = Inr None"
    by blast
  from inst' have "fst (get (snd (insertOne debounced_options (\<lambda>v. v) debounced_cache [1] 99 False 2000))
          [1] True 2001) =
      (if cache_sizeof (snd (insertOne debounced_options (\<lambda>v. v) debounced_cache [1] 99 False 2000)) [1]
          = Inr None then Inr None else Inr (Some 60))"
    by blast
  with e' have h2: "fst (get (snd (insertOne debounced_options (\<lambda>v. v) debounced_cache [1] 99 False 2000))
          [1] True 2001) = Inr None"
    by simp
  from a a' b c d t b' c' d' e' g1 g2 g3 g4 g5 g6 h1 h2 show ?thesis
    by simp
qed

subsection \<open>The empty key\<close>

text \<open>
  Claim C10, as stated, fails when an eviction is pending: in the cache over capacity,
  \<^verbatim>\<open>insertOne([], 99)\<close> after the interval returns null and its eviction check evicts the
  value under (1).
\<close>

theorem insert_empty_key_evicts:
  "fst (get debounced_cache [1] False 2000) = Inr (Some 60)
    \<and> fst (insertOne debounced_options (\<lambda>v. v) debounced_cache [] 99 True 2000) = Inr None
    \<and> fst (get (snd (insertOne debounced_options (\<lambda>v. v) debounced_cache [] 99 True 2000))
          [1] False 2001) = Inr None
    \<and> cache_size (snd (insertOne debounced_options (\<lambda>v. v) debounced_cache [] 99 True 2000)) = 70"
  by (simp add: debounced_cache_eq cache_ops shouldAutoPrune_def prune_def debounced_options_def Let_def)

text \<open>
  Claim C10, amended. In a state with a Branch as root and the size invariant, as every
  state that a run of public calls reaches, with the empty key: \<^verbatim>\<open>deleteOne\<close> returns
  without an exception and leaves the state as it is; \<^verbatim>\<open>get\<close> returns absent without an
  exception and changes at most the access timestamp of the root; \<^verbatim>\<open>insertOne\<close> returns
  null without an exception and stores nothing: the state after the call is the state
  before it when the eviction check does not fire and the state after \<^verbatim>\<open>prune()\<close> when it
  does, and a value that \<^verbatim>\<open>get\<close> finds at a key after the call is the value that it found
  there before.
\<close>

theorem empty_key_noop:
  assumes "isBranch (root c)" and "size_inv (root c)"
  shows "deleteOne c [] = (None, c)
    \<and> get c [] u now = (Inr None, c\<lparr>root := if u then touch now (root c) else root c\<rparr>)
    \<and> insertOne opts sizeof c [] v replace now =
        (Inr None, if shouldAutoPrune opts c now then snd (prune opts c now) else c)
    \<and> (fst (get (snd (insertOne opts sizeof c [] v replace now)) q u now') = Inr (Some x)
        \<longrightarrow> fst (get c q u now') = Inr (Some x))"
proof (intro conjI impI)
  show "deleteOne c [] = (None, c)"
    by (simp add: deleteOne_def)
  from assms(1) show "get c [] u now = (Inr None, c\<lparr>root := if u then touch now (root c) else root c\<rparr>)"
    by (cases "root c") (simp_all add: get_def partial_get_def rootPartial_def Let_def)
  from prune_no_error [OF assms(2), of opts now]
  show "insertOne opts sizeof c [] v replace now =
        (Inr None, if shouldAutoPrune opts c now then snd (prune opts c now) else c)"
    by (auto simp: insertOne_def autoPrune_check_def split: prod.splits sum.splits)
  show "fst (get c q u now') = Inr (Some x)"
    if "fst (get (snd (insertOne opts sizeof c [] v replace now)) q u now') = Inr (Some x)"
  proof -
    from that have "fst (get (snd (autoPrune_check opts c now)) q u now') = Inr (Some x)"
      by (simp add: snd_insertOne)
    then show ?thesis
      by (rule get_after_autoPrune_check)
  qed
qed

theorem empty_key_noop_witness:
  "isBranch (root view_cache) \<and> size_inv (root view_cache)
    \<and> deleteOne view_cache [] = (None, view_cache)
    \<and> fst (get view_cache [] True 5) = Inr None
    \<and> \<not> shouldAutoPrune bounded_options view_cache 5
    \<and> insertOne bounded_options (\<lambda>v. v) view_cache [] 7 True 5 = (Inr None, view_cache)
    \<and> isBranch (root debounced_cache) \<and> size_inv (root debounced_cache)
    \<and> shouldAutoPrune debounced_options debounced_cache 2000
    \<and> insertOne debounced_options (\<lambda>v. v) debounced_cache [] 99 True 2000 =
        (Inr None, snd (prune debounced_options debounced_cache 2000))
    \<and> fst (get (snd (insertOne debounced_options (\<lambda>v. v) debounced_cache [] 99 True 2000)) [2] False 2001)
        = Inr (Some 70)
    \<and> fst (get debounced_cache [2] False 2001) = Inr (Some 70)"
proof -
  have a: "isBranch (root view_cache)" and b: "size_inv (root view_cache)"
    by (simp_all add: view_cache_eq)
  have c: "\<not> shouldAutoPrune bounded_options view_cache 5"
    by (simp add: shouldAutoPrune_def bounded_options_def view_cache_eq cache_size_def)
  have a': "isBranch (root debounced_cache)" and b': "size_inv (root debounced_cache)"
    by (simp_all add: debounced_cache_eq)
  have c': "shouldAutoPrune debounced_options debounced_cache 2000"
    by (simp add: shouldAutoPrune_def debounced_options_def debounced_cache_eq cache_size_def)
  have d': "fst (get (snd (insertOne debounced_options (\<lambda>v. v) debounced_cache [] 99 True 2000)) [2] False 2001)
        = Inr (Some 70)"
    by (simp add: debounced_cache_eq cache_ops shouldAutoPrune_def prune_def debounced_options_def Let_def)
  note inst = empty_key_noop [OF a b, where u = True and now = 5 and opts = bounded_options
      and sizeof = "\<lambda>v. v" and v = 7 and replace = True]
  from inst have g1: "deleteOne view_cache [] = (None, view_cache)"
    by blast
  from inst have "get view_cache [] True 5 =
      (Inr None, view_cache\<lparr>root := if True then touch 5 (root view_cache) else root view_cache\<rparr>)"
    by blast
  then have g2: "fst (get view_cache [] True 5) = Inr None"
    by simp
  from inst have "insertOne bounded_options (\<lambda>v. v) view_cache [] 7 True 5 =
      (Inr None, if shouldAutoPrune bounded_options view_cache 5
                 then snd (prune bounded_options view_cache 5) else view_cache)"
    by blast
  with c have g3: "insertOne bounded_options (\<lambda>v. v) view_cache [] 7 True 5 = (Inr None, view_cache)"
    by simp
  note inst' = empty_key_noop [OF a' b', where u = False and now = 2000 and opts = debounced_options
      and sizeof = "\<lambda>v. v" and v = 99 and replace = True and q = "[2]" and now' = 2001 and x = 70]
  from inst' have "insertOne debounced_options (\<lambda>v. v) debounced_cache [] 99 True 2000 =
      (Inr None, if shouldAutoPrune debounced_options debounced_cache 2000
                 then snd (prune debounced_options debounced_cache 2000) else debounced_cache)"
    by blast
  with c' have h1: "insertOne debounced_options (\<lambda>v. v) debounced_cache [] 99 True 2000 =
        (Inr None, snd (prune debounced_options debounced_cache 2000))"
    by simp
  from inst' d' have h2: "fst (get debounced_cache [2] False 2001) = Inr (Some 70)"
    by blast
  from a b c a' b' c' d' g1 g2 g3 h1 h2 show ?thesis
    by simp
qed

subsection \<open>Access timestamps: reads through a view, and all calls\<close>













end
